theory Spec2Isabelle
  imports Main "HOL-Library.Word"
begin

section \<open>The stream reader of go-openai (stream\_reader.go)\<close>

text \<open>
  A shallow embedding of \<^verbatim>\<open>streamReader[T]\<close>: the pull operations \<^verbatim>\<open>Recv\<close> and
  \<^verbatim>\<open>RecvRaw\<close>, the line loop \<^verbatim>\<open>processLines\<close>, \<^verbatim>\<open>unmarshalError\<close> and
  \<^verbatim>\<open>IsComplete\<close>, as the file \<^verbatim>\<open>stream_reader.go\<close> has them. Byte slices are
  lists of 8-bit characters. Mutation of the receiver is explicit state passing: every
  operation returns the updated stream. The repository holds a second reader of the same
  names, without a data buffer, which emits every data line as it is read; it is not
  embedded here.
\<close>

subsection \<open>Byte slices and the functions of package bytes that the reader calls\<close>

type_synonym bytes = string

abbreviation LF :: char where "LF \<equiv> CHR 0x0A"
abbreviation CR :: char where "CR \<equiv> CHR 0x0D"

text \<open>
  \<^verbatim>\<open>bytes.TrimRight(s, cutset)\<close> drops every trailing byte that occurs in the cutset.
  The reader calls it with the ASCII cutset CR LF only, where working on bytes and
  working on UTF-8 code points agree.
\<close>

definition TrimRight :: "bytes \<Rightarrow> bytes \<Rightarrow> bytes" where
  "TrimRight s cutset = rev (dropWhile (\<lambda>c. c \<in> set cutset) (rev s))"

definition HasPrefix :: "bytes \<Rightarrow> bytes \<Rightarrow> bool" where
  "HasPrefix s p = (take (length p) s = p)"

definition TrimPrefix :: "bytes \<Rightarrow> bytes \<Rightarrow> bytes" where
  "TrimPrefix s p = (if HasPrefix s p then drop (length p) s else s)"

fun Contains :: "bytes \<Rightarrow> bytes \<Rightarrow> bool" where
  "Contains [] sub = (sub = [])"
| "Contains (c # s) sub = (HasPrefix (c # s) sub \<or> Contains s sub)"

subsection \<open>Errors\<close>

text \<open>
  Modelled from the spec: the structured error value
  \<^verbatim>\<open>{ message: string, type?: string, code?: string|number }\<close>; the declarations of
  \<^verbatim>\<open>APIError\<close> and \<^verbatim>\<open>ErrorResponse\<close> are not among the sources. The field
  \<^verbatim>\<open>Error\<close> of \<^verbatim>\<open>ErrorResponse\<close> is a pointer, \<open>None\<close> when nil.
\<close>

record APIError =
  Message :: string
  Type :: "string option"
  Code :: "string option"

record ErrorResponse =
  Error :: "APIError option"

text \<open>
  The values of Go's \<^verbatim>\<open>error\<close> interface that reach the reader. \<open>APIErr p\<close> is the
  interface value holding the pointer \<open>p\<close> of type \<^verbatim>\<open>*APIError\<close> (the reader returns
  \<^verbatim>\<open>respErr.Error\<close> unchecked, so the pointer may be nil); it wraps no other
  error. \<open>Wrapped\<close> is an error that wraps another one (\<^verbatim>\<open>%w\<close>), as a transport
  may report; \<open>OtherErr\<close> is any other error, named by its text.
\<close>

datatype go_error =
    EOF
  | ErrUnexpectedEOF
  | ErrTooManyEmptyStreamMessages
  | APIErr "APIError option"
  | OtherErr string
  | Wrapped string go_error

text \<open>\<^verbatim>\<open>errors.Is\<close>: the error itself or one it wraps.\<close>

fun errors_Is :: "go_error \<Rightarrow> go_error \<Rightarrow> bool" where
  "errors_Is (Wrapped msg e) target = (Wrapped msg e = target \<or> errors_Is e target)"
| "errors_Is e target = (e = target)"

subsection \<open>The byte source\<close>

text \<open>
  \<^verbatim>\<open>bufio.Reader\<close> over the response body, by its documented behaviour: the source
  delivers the bytes \<open>pending\<close> and then reports the error \<open>terminal\<close> on every
  further read (\<^verbatim>\<open>io.EOF\<close> when the connection closes cleanly). \<open>reads\<close> counts
  the calls of \<^verbatim>\<open>ReadBytes\<close>, so that "no read is performed" can be stated.
\<close>

record bufio_Reader =
  pending :: bytes
  terminal :: go_error
  reads :: nat

text \<open>
  \<^verbatim>\<open>ReadBytes(delim)\<close> returns the bytes up to and including the first delimiter;
  when the source ends first, it returns what was left together with the error.
\<close>

definition ReadBytes :: "bufio_Reader \<Rightarrow> char \<Rightarrow> bytes \<times> go_error option \<times> bufio_Reader" where
  "ReadBytes r delim =
     (if delim \<in> set (pending r)
      then (takeWhile (\<lambda>c. c \<noteq> delim) (pending r) @ [delim], None,
            r\<lparr>pending := tl (dropWhile (\<lambda>c. c \<noteq> delim) (pending r)), reads := Suc (reads r)\<rparr>)
      else (pending r, Some (terminal r),
            r\<lparr>pending := [], reads := Suc (reads r)\<rparr>))"

subsection \<open>The injected unmarshaler\<close>

text \<open>
  Modelled from the spec: the pluggable decoder "capable of turning a byte span into a
  typed application message" (the interface \<^verbatim>\<open>utils.Unmarshaler\<close> and its JSON
  implementation are not among the sources). \<^verbatim>\<open>Unmarshal(data, v)\<close> writes through
  the pointer \<open>v\<close> and returns an error; the reader calls it at three target types, each
  time on a freshly zeroed target, so each call is a function of the bytes alone:
  \<^item> \<open>decodeErrorResponsePtr\<close>, target \<^verbatim>\<open>**ErrorResponse\<close> (in \<^verbatim>\<open>unmarshalError\<close>):
    the error, or the pointer left in the target (\<open>None\<close> when still nil);
  \<^item> \<open>decodeErrorResponse\<close>, target \<^verbatim>\<open>*ErrorResponse\<close> (in \<^verbatim>\<open>Recv\<close>);
  \<^item> \<open>decodeResponse\<close>, target \<^verbatim>\<open>*T\<close> (in \<^verbatim>\<open>Recv\<close>): the value left in the
    target, which \<^verbatim>\<open>Recv\<close> returns also when the decode failed, and the error if any.
\<close>

record 'T Unmarshaler =
  decodeErrorResponsePtr :: "bytes \<Rightarrow> go_error + ErrorResponse option"
  decodeErrorResponse :: "bytes \<Rightarrow> go_error + ErrorResponse"
  decodeResponse :: "bytes \<Rightarrow> 'T \<times> go_error option"

subsection \<open>The stream\<close>

text \<open>
  The fields of \<^verbatim>\<open>streamReader[T]\<close> that the modelled operations read or write.
  \<^verbatim>\<open>uint\<close> is taken as 64 bits wide. \<open>dataBuffer\<close> is a pointer, \<open>None\<close> when nil.
  Modelled from the spec: the error accumulator "collects bytes identified as belonging
  to an error payload" (the interface \<^verbatim>\<open>utils.ErrorAccumulator\<close> is not among the
  sources): the field holds the bytes written so far, \<^verbatim>\<open>Write\<close> appends and
  \<^verbatim>\<open>Bytes\<close> returns them. The fields \<^verbatim>\<open>response\<close> and \<^verbatim>\<open>httpHeader\<close> are left out:
  only \<^verbatim>\<open>Close\<close> uses them.
\<close>

record 'T streamReader =
  emptyMessagesLimit :: "64 word"
  isFinished :: bool
  receivedDone :: bool
  reader :: bufio_Reader
  errAccumulator :: bytes
  unmarshaler :: "'T Unmarshaler"
  dataBuffer :: "bytes option"

text \<open>\<^verbatim>\<open>stream.dataBuffer.Bytes()\<close> once the buffer is initialised.\<close>

definition dataBuffer_Bytes :: "'T streamReader \<Rightarrow> bytes" where
  "dataBuffer_Bytes stream = (case dataBuffer stream of None \<Rightarrow> [] | Some b \<Rightarrow> b)"

definition unmarshalError :: "'T streamReader \<Rightarrow> ErrorResponse option" where
  "unmarshalError stream =
     (let errBytes = errAccumulator stream in
      if length errBytes = 0 then None
      else (case decodeErrorResponsePtr (unmarshaler stream) errBytes of
              Inl err \<Rightarrow> None
            | Inr errResp \<Rightarrow> errResp))"

definition IsComplete :: "'T streamReader \<Rightarrow> bool" where
  "IsComplete stream = receivedDone stream"

subsection \<open>processLines\<close>

text \<open>
  One iteration of the \<^verbatim>\<open>for\<close> loop of \<^verbatim>\<open>processLines\<close> either returns from
  the function (\<open>Return\<close>, with the result and the stream) or goes round again
  (\<open>Continue\<close>, with the stream and the local \<^verbatim>\<open>emptyMessagesCount\<close>). Every
  \<^verbatim>\<open>return\<close> of the Go function gives a nil slice with an error or a slice with a
  nil error, hence the sum type. The slice a \<open>Return\<close> carries is the content of the
  data buffer at the moment of the return.
\<close>

datatype 'T iteration =
    Return "go_error + bytes" "'T streamReader"
  | Continue "'T streamReader" "64 word"

text \<open>The branch \<^verbatim>\<open>if readErr != nil\<close>.\<close>

definition processLines_readErr :: "'T streamReader \<Rightarrow> go_error \<Rightarrow> 'T iteration" where
  "processLines_readErr stream readErr =
     (if readErr = EOF then
        if length (dataBuffer_Bytes stream) > 0
        then Return (Inr (dataBuffer_Bytes stream)) (stream\<lparr>dataBuffer := Some []\<rparr>)
        else Return (Inl EOF) (stream\<lparr>isFinished := True\<rparr>)
      else Return (Inl readErr) stream)"

text \<open>The branch \<^verbatim>\<open>if len(line) == 0\<close>: an empty line ends an event.\<close>

definition processLines_boundary :: "'T streamReader \<Rightarrow> 64 word \<Rightarrow> 'T iteration" where
  "processLines_boundary stream emptyMessagesCount =
     (case (if length (errAccumulator stream) > 0 then unmarshalError stream else None) of
        Some respErr \<Rightarrow> Return (Inl (APIErr (Error respErr))) stream
      | None \<Rightarrow>
          if length (dataBuffer_Bytes stream) > 0
          then Return (Inr (dataBuffer_Bytes stream)) (stream\<lparr>dataBuffer := Some []\<rparr>)
          else if emptyMessagesCount + 1 > emptyMessagesLimit stream
          then Return (Inl ErrTooManyEmptyStreamMessages) stream
          else Continue stream (emptyMessagesCount + 1))"

text \<open>The rest of the loop body: a line that is not empty, classified by its prefix.\<close>

definition processLines_field :: "'T streamReader \<Rightarrow> 64 word \<Rightarrow> bytes \<Rightarrow> 'T iteration" where
  \<open>processLines_field stream emptyMessagesCount line =
     (if HasPrefix line ''data: '' then
        let data = TrimPrefix line ''data: '' in
        if data = ''[DONE]'' \<or> data = ''done''
        then Return (Inl EOF) (stream\<lparr>isFinished := True, receivedDone := True\<rparr>)
        else if data = [] then Continue stream emptyMessagesCount
        else Continue
               (stream\<lparr>dataBuffer :=
                  Some (dataBuffer_Bytes stream
                        @ (if length (dataBuffer_Bytes stream) > 0 then [LF] else [])
                        @ data)\<rparr>)
               emptyMessagesCount
      else if HasPrefix line ''error: '' then
        Continue (stream\<lparr>errAccumulator := errAccumulator stream @ TrimPrefix line ''error: ''\<rparr>)
          emptyMessagesCount
      else if Contains line ''"error":'' \<and> HasPrefix line ''{'' then
        Continue (stream\<lparr>errAccumulator := errAccumulator stream @ line @ [LF]\<rparr>)
          emptyMessagesCount
      else Continue stream emptyMessagesCount)\<close>

definition processLines_body :: "'T streamReader \<Rightarrow> 64 word \<Rightarrow> 'T iteration" where
  "processLines_body stream emptyMessagesCount =
     (case ReadBytes (reader stream) LF of
        (rawLine, Some readErr, rd) \<Rightarrow> processLines_readErr (stream\<lparr>reader := rd\<rparr>) readErr
      | (rawLine, None, rd) \<Rightarrow>
          let line = TrimRight rawLine [CR, LF] in
          if length line = 0 then processLines_boundary (stream\<lparr>reader := rd\<rparr>) emptyMessagesCount
          else processLines_field (stream\<lparr>reader := rd\<rparr>) emptyMessagesCount line)"

text \<open>
  The loop. Every iteration that goes round again has consumed a line of the pending
  bytes, so the loop ends on every byte source.
\<close>

function processLines_loop :: "'T streamReader \<Rightarrow> 64 word \<Rightarrow> (go_error + bytes) \<times> 'T streamReader" where
  "processLines_loop stream emptyMessagesCount =
     (case processLines_body stream emptyMessagesCount of
        Return result stream' \<Rightarrow> (result, stream')
      | Continue stream' emptyMessagesCount' \<Rightarrow> processLines_loop stream' emptyMessagesCount')"
  by pat_completeness auto
termination
proof (relation "measure (\<lambda>(stream, c). length (pending (reader stream)))")
  show "wf (measure (\<lambda>(stream :: 'T streamReader, c :: 64 word). length (pending (reader stream))))"
    by simp
next
  fix stream stream' :: "'T streamReader" and c c' :: "64 word"
  assume again: "processLines_body stream c = Continue stream' c'"
  obtain rawLine readErr rd where read: "ReadBytes (reader stream) LF = (rawLine, readErr, rd)"
    by (cases "ReadBytes (reader stream) LF")
  have no_err: "readErr = None"
    using again read
    by (cases readErr) (auto simp: processLines_body_def processLines_readErr_def split: if_splits)
  have kept: "reader stream' = rd"
    using again read no_err
    by (auto simp: processLines_body_def processLines_boundary_def processLines_field_def Let_def
        split: if_splits option.splits)
  from read no_err have found: "LF \<in> set (pending (reader stream))"
    and rd: "pending rd = tl (dropWhile (\<lambda>c. c \<noteq> LF) (pending (reader stream)))"
    by (auto simp: ReadBytes_def split: if_splits)
  from found have "dropWhile (\<lambda>c. c \<noteq> LF) (pending (reader stream)) \<noteq> []"
    by simp
  then have "length (pending rd) < length (dropWhile (\<lambda>c. c \<noteq> LF) (pending (reader stream)))"
    by (simp add: rd)
  also have "\<dots> \<le> length (pending (reader stream))"
    by (rule length_dropWhile_le)
  finally show "((stream', c'), (stream, c)) \<in> measure (\<lambda>(stream, c). length (pending (reader stream)))"
    by (simp add: kept)
qed

declare processLines_loop.simps [simp del]

text \<open>The first statement of \<^verbatim>\<open>processLines\<close>: a nil data buffer becomes an empty one.\<close>

definition initDataBuffer :: "'T streamReader \<Rightarrow> 'T streamReader" where
  "initDataBuffer stream =
     (if dataBuffer stream = None then stream\<lparr>dataBuffer := Some []\<rparr> else stream)"

text \<open>\<^verbatim>\<open>emptyMessagesCount\<close> is a local variable: every call starts the loop with zero.\<close>

definition processLines :: "'T streamReader \<Rightarrow> (go_error + bytes) \<times> 'T streamReader" where
  "processLines stream = processLines_loop (initDataBuffer stream) 0"

subsection \<open>RecvRaw and Recv\<close>

definition RecvRaw :: "'T streamReader \<Rightarrow> (go_error + bytes) \<times> 'T streamReader" where
  "RecvRaw stream = (if isFinished stream then (Inl EOF, stream) else processLines stream)"

text \<open>
  \<^verbatim>\<open>Recv\<close> returns the pair \<^verbatim>\<open>(response, err)\<close>; \<open>zero\<close> is the zero value of the
  type parameter \<^verbatim>\<open>T\<close>, which the named result \<^verbatim>\<open>response\<close> holds until the
  unmarshaler writes to it.
\<close>

definition Recv_errorResponse :: "'T streamReader \<Rightarrow> bytes \<Rightarrow> APIError option" where
  \<open>Recv_errorResponse stream rawLine =
     (if Contains rawLine ''"error":''
      then (case decodeErrorResponse (unmarshaler stream) rawLine of
              Inl err \<Rightarrow> None
            | Inr errResp \<Rightarrow> Error errResp)
      else None)\<close>

definition Recv :: "'T \<Rightarrow> 'T streamReader \<Rightarrow> ('T \<times> go_error option) \<times> 'T streamReader" where
  \<open>Recv zero stream =
     (case RecvRaw stream of
        (Inl err, stream') \<Rightarrow>
          if errors_Is err ErrUnexpectedEOF \<or> errors_Is err EOF
          then ((zero, Some EOF), stream')
          else ((zero, Some err), stream')
      | (Inr rawLine, stream') \<Rightarrow>
          (case Recv_errorResponse stream' rawLine of
             Some apiErr \<Rightarrow> ((zero, Some (APIErr (Some apiErr))), stream')
           | None \<Rightarrow>
               (case decodeResponse (unmarshaler stream') rawLine of
                  (response, Some err) \<Rightarrow>
                    if Contains rawLine ''"choices"''
                    then ((response, None), stream')
                    else ((response, Some err), stream')
                | (response, None) \<Rightarrow> ((response, None), stream'))))\<close>

subsection \<open>Sequences of pulls\<close>

text \<open>The results of \<open>n\<close> successive calls of \<^verbatim>\<open>RecvRaw\<close>, and the stream after them.\<close>

fun RecvRaw_times :: "nat \<Rightarrow> 'T streamReader \<Rightarrow> (go_error + bytes) list \<times> 'T streamReader" where
  "RecvRaw_times 0 stream = ([], stream)"
| "RecvRaw_times (Suc n) stream =
     (case RecvRaw stream of (result, stream') \<Rightarrow>
        (case RecvRaw_times n stream' of (results, stream'') \<Rightarrow> (result # results, stream'')))"

subsection \<open>The wire format\<close>

text \<open>
  The vocabulary in which the properties below describe the bytes on the wire. A line
  ends with LF, after any number of CR (all of them trimmed by the reader).
\<close>

definition eol :: "nat \<Rightarrow> bytes" where
  "eol k = replicate k CR @ [LF]"

text \<open>Consecutive blank lines: one line end per element of \<open>ks\<close>.\<close>

definition blank_lines :: "nat list \<Rightarrow> bytes" where
  "blank_lines ks = concat (map eol ks)"

text \<open>
  A payload that a data line carries into the data buffer unchanged: not empty (that is
  a heartbeat), not a terminal token, within one line, and not ending in a CR (which
  the reader would trim as part of the line end).
\<close>

definition payload_ok :: "bytes \<Rightarrow> bool" where
  "payload_ok p \<longleftrightarrow> p \<noteq> [] \<and> LF \<notin> set p \<and> last p \<noteq> CR \<and> p \<noteq> ''[DONE]'' \<and> p \<noteq> ''done''"

definition data_line :: "bytes \<Rightarrow> nat \<Rightarrow> bytes" where
  "data_line p k = ''data: '' @ p @ eol k"

text \<open>Consecutive data lines, each a payload with its line end.\<close>

definition data_lines :: "(bytes \<times> nat) list \<Rightarrow> bytes" where
  "data_lines pks = concat (map (\<lambda>(p, k). data_line p k) pks)"

text \<open>The payloads in order, with exactly one LF between consecutive ones.\<close>

fun join_LF :: "bytes list \<Rightarrow> bytes" where
  "join_LF [] = []"
| "join_LF [p] = p"
| "join_LF (p # q # ps) = p @ LF # join_LF (q # ps)"

text \<open>
  A well-formed stream: every message is one data line followed by a blank line; the
  line \<^verbatim>\<open>data: [DONE]\<close> ends it.
\<close>

definition event :: "bytes \<Rightarrow> bytes" where
  "event p = ''data: '' @ p @ [LF, LF]"

definition wire :: "bytes list \<Rightarrow> bytes" where
  "wire ps = concat (map event ps) @ ''data: [DONE]'' @ [LF]"

text \<open>
  The complete lines of a byte sequence (each without its LF); bytes after the last LF
  are not a line. \<open>cur\<close> holds the bytes of the line being read, last byte first.
\<close>

fun complete_lines_from :: "bytes \<Rightarrow> bytes \<Rightarrow> bytes list" where
  "complete_lines_from cur [] = []"
| "complete_lines_from cur (c # cs) =
     (if c = LF then rev cur # complete_lines_from [] cs else complete_lines_from (c # cur) cs)"

definition complete_lines :: "bytes \<Rightarrow> bytes list" where
  "complete_lines bs = complete_lines_from [] bs"

text \<open>A line that carries a terminal token, as the reader recognises it.\<close>

definition terminal_line :: "bytes \<Rightarrow> bool" where
  "terminal_line l \<longleftrightarrow>
     HasPrefix (TrimRight l [CR, LF]) ''data: '' \<and>
     (TrimPrefix (TrimRight l [CR, LF]) ''data: '' = ''[DONE]'' \<or>
      TrimPrefix (TrimRight l [CR, LF]) ''data: '' = ''done'')"

definition has_terminal_line :: "bytes \<Rightarrow> bool" where
  "has_terminal_line bs = list_ex terminal_line (complete_lines bs)"

text \<open>
  The stream after \<open>n\<close> more calls of \<^verbatim>\<open>ReadBytes\<close> that have left \<open>rest\<close> pending.
\<close>

definition advance :: "'T streamReader \<Rightarrow> bytes \<Rightarrow> nat \<Rightarrow> 'T streamReader" where
  "advance stream rest n =
     stream\<lparr>reader := (reader stream)\<lparr>pending := rest, reads := reads (reader stream) + n\<rparr>\<rparr>"

subsection \<open>A stream for the examples\<close>

text \<open>
  A decoder for the examples, with messages that are byte strings: it knows the error
  payload of the scenario in the specification, takes a frame in braces as a message
  and fails on every other frame, leaving the target as it was.
\<close>

definition bad_key_payload :: bytes where
  \<open>bad_key_payload = ''{"error":{"message":"bad key"}}''\<close>

definition bad_key :: APIError where
  "bad_key = \<lparr>Message = ''bad key'', Type = None, Code = None\<rparr>"

definition example_unmarshaler :: "bytes Unmarshaler" where
  "example_unmarshaler =
     \<lparr>decodeErrorResponsePtr = (\<lambda>b. if b = bad_key_payload then Inr (Some \<lparr>Error = Some bad_key\<rparr>)
                                     else Inl (OtherErr ''invalid error payload'')),
      decodeErrorResponse = (\<lambda>b. if b = bad_key_payload then Inr \<lparr>Error = Some bad_key\<rparr>
                                  else Inl (OtherErr ''invalid error payload'')),
      decodeResponse = (\<lambda>b. if b \<noteq> [] \<and> hd b = CHR ''{'' \<and> last b = CHR ''}'' then (b, None)
                             else ([], Some (OtherErr ''invalid message'')))\<rparr>"

text \<open>A newly made stream over the bytes \<open>input\<close>, closed cleanly after them.\<close>

definition example_stream :: "64 word \<Rightarrow> bytes \<Rightarrow> bytes streamReader" where
  "example_stream limit input =
     \<lparr>emptyMessagesLimit = limit, isFinished = False, receivedDone = False,
      reader = \<lparr>pending = input, terminal = EOF, reads = 0\<rparr>,
      errAccumulator = [], unmarshaler = example_unmarshaler, dataBuffer = None\<rparr>"

text \<open>
  A decoder for the example of a decode that fails after it has written to the target,
  as \<^verbatim>\<open>encoding/json\<close> documents for a value of the wrong type: the field is
  skipped, the rest is decoded as well as it can be, and the type error is returned. A
  message is represented by its \<^verbatim>\<open>id\<close>. On the frame
  \<^verbatim>\<open>{"id":"abc","choices":7}\<close> the id is filled in and the error is the one for
  \<^verbatim>\<open>choices\<close>; no other frame is decoded.
\<close>

definition type_mismatch_unmarshaler :: "bytes Unmarshaler" where
  \<open>type_mismatch_unmarshaler =
     \<lparr>decodeErrorResponsePtr = (\<lambda>b. Inl (OtherErr ''invalid error payload'')),
      decodeErrorResponse = (\<lambda>b. Inl (OtherErr ''invalid error payload'')),
      decodeResponse = (\<lambda>b. if b = ''{"id":"abc","choices":7}''
                             then (''abc'', Some (OtherErr ''cannot unmarshal number into field choices''))
                             else ([], Some (OtherErr ''invalid message'')))\<rparr>\<close>

section \<open>Properties\<close>

subsection \<open>Reading and trimming a line\<close>

lemma takeWhile_line: "LF \<notin> set l \<Longrightarrow> takeWhile (\<lambda>c. c \<noteq> LF) (l @ LF # rest) = l"
  by (induction l) auto

lemma dropWhile_line: "LF \<notin> set l \<Longrightarrow> dropWhile (\<lambda>c. c \<noteq> LF) (l @ LF # rest) = LF # rest"
  by (induction l) auto

lemma ReadBytes_line:
  assumes "pending r = l @ LF # rest" and "LF \<notin> set l"
  shows "ReadBytes r LF = (l @ [LF], None, r\<lparr>pending := rest, reads := Suc (reads r)\<rparr>)"
  using assms by (simp add: ReadBytes_def takeWhile_line dropWhile_line)

lemma ReadBytes_end:
  assumes "LF \<notin> set (pending r)"
  shows "ReadBytes r LF = (pending r, Some (terminal r), r\<lparr>pending := [], reads := Suc (reads r)\<rparr>)"
  using assms by (simp add: ReadBytes_def)

lemma TrimRight_eol:
  assumes "l = [] \<or> (last l \<noteq> CR \<and> last l \<noteq> LF)"
  shows "TrimRight (l @ eol k) [CR, LF] = l"
proof -
  have kept: "dropWhile (\<lambda>c. c = CR \<or> c = LF) (rev l) = rev l"
    using assms by (cases l rule: rev_cases) auto
  have "dropWhile (\<lambda>c. c = CR \<or> c = LF) (replicate k CR @ rev l) = rev l"
    by (induction k) (simp_all add: kept)
  then show ?thesis
    by (simp add: TrimRight_def eol_def)
qed

subsection \<open>Running the loop\<close>

lemma advance_fields [simp]:
  "emptyMessagesLimit (advance s rest n) = emptyMessagesLimit s"
  "isFinished (advance s rest n) = isFinished s"
  "receivedDone (advance s rest n) = receivedDone s"
  "errAccumulator (advance s rest n) = errAccumulator s"
  "unmarshaler (advance s rest n) = unmarshaler s"
  "dataBuffer (advance s rest n) = dataBuffer s"
  "pending (reader (advance s rest n)) = rest"
  "terminal (reader (advance s rest n)) = terminal (reader s)"
  "reads (reader (advance s rest n)) = reads (reader s) + n"
  by (simp_all add: advance_def)

lemma advance_advance [simp]: "advance (advance s r1 n1) r2 n2 = advance s r2 (n1 + n2)"
  by (simp add: advance_def)

lemma advance_update [simp]:
  "advance (s\<lparr>dataBuffer := b\<rparr>) rest n = (advance s rest n)\<lparr>dataBuffer := b\<rparr>"
  "advance (s\<lparr>errAccumulator := a\<rparr>) rest n = (advance s rest n)\<lparr>errAccumulator := a\<rparr>"
  by (simp_all add: advance_def)

lemma dataBuffer_Bytes_simps [simp]:
  "dataBuffer_Bytes (advance s rest n) = dataBuffer_Bytes s"
  "dataBuffer_Bytes (s\<lparr>dataBuffer := Some b\<rparr>) = b"
  "dataBuffer_Bytes (s\<lparr>errAccumulator := a\<rparr>) = dataBuffer_Bytes s"
  by (simp_all add: dataBuffer_Bytes_def)

lemma unmarshalError_simps [simp]:
  "unmarshalError (advance s rest n) = unmarshalError s"
  "unmarshalError (s\<lparr>dataBuffer := b\<rparr>) = unmarshalError s"
  by (simp_all add: unmarshalError_def Let_def)

lemma loop_Return:
  "processLines_body s c = Return r s' \<Longrightarrow> processLines_loop s c = (r, s')"
  by (simp add: processLines_loop.simps)

lemma loop_Continue:
  "processLines_body s c = Continue s' c' \<Longrightarrow> processLines_loop s c = processLines_loop s' c'"
  by (simp add: processLines_loop.simps)

lemma body_line:
  assumes "pending (reader s) = l @ eol k @ rest" and "LF \<notin> set l" and "l = [] \<or> last l \<noteq> CR"
  shows "processLines_body s c =
           (if l = [] then processLines_boundary (advance s rest 1) c
            else processLines_field (advance s rest 1) c l)"
proof -
  have "pending (reader s) = (l @ replicate k CR) @ LF # rest"
    using assms(1) by (simp add: eol_def)
  moreover have "LF \<notin> set (l @ replicate k CR)"
    using assms(2) by auto
  ultimately have "ReadBytes (reader s) LF =
      ((l @ replicate k CR) @ [LF], None, (reader s)\<lparr>pending := rest, reads := Suc (reads (reader s))\<rparr>)"
    by (rule ReadBytes_line)
  moreover have "TrimRight (l @ eol k) [CR, LF] = l"
    using assms(2,3) by (intro TrimRight_eol) (cases l rule: rev_cases, auto)
  ultimately show ?thesis
    by (simp add: processLines_body_def eol_def advance_def)
qed

lemma body_end:
  assumes "LF \<notin> set (pending (reader s))"
  shows "processLines_body s c = processLines_readErr (advance s [] 1) (terminal (reader s))"
  using ReadBytes_end [OF assms] by (simp add: processLines_body_def advance_def)


lemma initDataBuffer_fields [simp]:
  "emptyMessagesLimit (initDataBuffer s) = emptyMessagesLimit s"
  "isFinished (initDataBuffer s) = isFinished s"
  "receivedDone (initDataBuffer s) = receivedDone s"
  "errAccumulator (initDataBuffer s) = errAccumulator s"
  "unmarshaler (initDataBuffer s) = unmarshaler s"
  "reader (initDataBuffer s) = reader s"
  "dataBuffer_Bytes (initDataBuffer s) = dataBuffer_Bytes s"
  "unmarshalError (initDataBuffer s) = unmarshalError s"
  by (simp_all add: initDataBuffer_def dataBuffer_Bytes_def unmarshalError_def Let_def)

lemma initDataBuffer_Some [simp]: "dataBuffer s = Some b \<Longrightarrow> initDataBuffer s = s"
  by (simp add: initDataBuffer_def)

lemma dataBuffer_initDataBuffer: "dataBuffer (initDataBuffer s) = Some (dataBuffer_Bytes s)"
  by (simp add: initDataBuffer_def dataBuffer_Bytes_def split: option.splits)

lemma HasPrefix_append [simp]: "HasPrefix (p @ s) p"
  by (simp add: HasPrefix_def)

lemma TrimPrefix_append [simp]: "TrimPrefix (p @ s) p = s"
  by (simp add: TrimPrefix_def)

lemma field_terminal:
  assumes "token = ''[DONE]'' \<or> token = ''done''"
  shows "processLines_field s c (''data: '' @ token) =
           Return (Inl EOF) (s\<lparr>isFinished := True, receivedDone := True\<rparr>)"
  using assms unfolding processLines_field_def Let_def
  by (simp only: HasPrefix_append TrimPrefix_append if_True simp_thms)

lemma field_data:
  assumes "p \<noteq> []" and "p \<noteq> ''[DONE]''" and "p \<noteq> ''done''"
  shows "processLines_field s c (''data: '' @ p) =
           Continue (s\<lparr>dataBuffer := Some (dataBuffer_Bytes s
                        @ (if dataBuffer_Bytes s \<noteq> [] then [LF] else []) @ p)\<rparr>) c"
  using assms unfolding processLines_field_def Let_def
  by (simp only: HasPrefix_append TrimPrefix_append if_True if_False simp_thms length_greater_0_conv)

lemma field_heartbeat:
  "processLines_field s c ''data: '' = Continue s c"
  using HasPrefix_append [of "''data: ''" "[]"] TrimPrefix_append [of "''data: ''" "[]"]
  unfolding processLines_field_def Let_def
  by simp

lemma field_error:
  "processLines_field s c (''error: '' @ p) =
     Continue (s\<lparr>errAccumulator := errAccumulator s @ p\<rparr>) c"
proof -
  have "\<not> HasPrefix (''error: '' @ p) ''data: ''"
    by (simp add: HasPrefix_def)
  then show ?thesis
    unfolding processLines_field_def Let_def
    by (simp only: HasPrefix_append TrimPrefix_append if_True if_False)
qed

lemma body_terminal:
  assumes "token = ''[DONE]'' \<or> token = ''done''"
      and "pending (reader s) = ''data: '' @ token @ eol k @ rest"
  shows "processLines_body s c =
           Return (Inl EOF) ((advance s rest 1)\<lparr>isFinished := True, receivedDone := True\<rparr>)"
proof -
  have "processLines_body s c = processLines_field (advance s rest 1) c (''data: '' @ token)"
    using assms by (subst body_line [where l = "''data: '' @ token" and k = k and rest = rest]) auto
  then show ?thesis
    by (simp only: field_terminal [OF assms(1)])
qed

lemma Recv_error:
  assumes "RecvRaw s = (Inl e, s')"
  shows "Recv zero s =
           ((zero, Some (if errors_Is e ErrUnexpectedEOF \<or> errors_Is e EOF then EOF else e)), s')"
  using assms by (simp add: Recv_def)

lemma readErr_EOF:
  "processLines_readErr s EOF =
     (if dataBuffer_Bytes s \<noteq> [] then Return (Inr (dataBuffer_Bytes s)) (s\<lparr>dataBuffer := Some []\<rparr>)
      else Return (Inl EOF) (s\<lparr>isFinished := True\<rparr>))"
  by (simp add: processLines_readErr_def)

lemma loop_end_EOF:
  assumes "LF \<notin> set (pending (reader s))" and "terminal (reader s) = EOF"
  shows "processLines_loop s c =
     (if dataBuffer_Bytes s \<noteq> [] then (Inr (dataBuffer_Bytes s), (advance s [] 1)\<lparr>dataBuffer := Some []\<rparr>)
      else (Inl EOF, (advance s [] 1)\<lparr>isFinished := True\<rparr>))"
  using assms by (auto intro!: loop_Return simp: body_end readErr_EOF)

lemma loop_data_line:
  assumes "payload_ok p" and "pending (reader s) = data_line p k @ rest"
  shows "processLines_loop s c =
     processLines_loop
       ((advance s rest 1)\<lparr>dataBuffer := Some (dataBuffer_Bytes s
            @ (if dataBuffer_Bytes s \<noteq> [] then [LF] else []) @ p)\<rparr>) c"
proof -
  from assms(1) have p: "p \<noteq> []" "p \<noteq> ''[DONE]''" "p \<noteq> ''done''" "LF \<notin> set p" "last p \<noteq> CR"
    by (simp_all add: payload_ok_def)
  have "processLines_body s c = processLines_field (advance s rest 1) c (''data: '' @ p)"
    using assms(2) p by (subst body_line [where l = "''data: '' @ p" and k = k and rest = rest])
      (auto simp: data_line_def)
  also have "\<dots> = Continue ((advance s rest 1)\<lparr>dataBuffer := Some (dataBuffer_Bytes s
            @ (if dataBuffer_Bytes s \<noteq> [] then [LF] else []) @ p)\<rparr>) c"
    by (simp only: field_data [OF p(1-3)] dataBuffer_Bytes_simps)
  finally show ?thesis
    by (rule loop_Continue)
qed

lemma RecvRaw_times_2:
  assumes "RecvRaw s = (r1, s1)" and "RecvRaw s1 = (r2, s2)"
  shows "RecvRaw_times 2 s = ([r1, r2], s2)"
  using assms by (simp add: numeral_2_eq_2)

subsection \<open>The terminal token\<close>

text \<open>
  C1. Whenever the loop of \<^verbatim>\<open>processLines\<close> reads a data line (a line ended by LF)
  whose payload, after the prefix and the trailing CR and LF are stripped, is
  \<^verbatim>\<open>[DONE]\<close> or \<^verbatim>\<open>done\<close>, the call
  sets \<^verbatim>\<open>isFinished\<close> and \<^verbatim>\<open>receivedDone\<close> and returns \<^verbatim>\<open>io.EOF\<close>, from
  \<^verbatim>\<open>RecvRaw\<close> and from \<^verbatim>\<open>Recv\<close> alike. The byte source has been read once for that
  line and not again: the bytes after the line are still pending.
\<close>

theorem terminal_token_ends_stream:
  assumes "token = ''[DONE]'' \<or> token = ''done''"
      and "pending (reader stream) = ''data: '' @ token @ eol k @ rest"
  shows "processLines_loop stream c =
           (Inl EOF, (advance stream rest 1)\<lparr>isFinished := True, receivedDone := True\<rparr>)
       \<and> (\<not> isFinished stream \<longrightarrow>
            RecvRaw stream =
              (Inl EOF, (advance (initDataBuffer stream) rest 1)\<lparr>isFinished := True, receivedDone := True\<rparr>)
          \<and> Recv zero stream =
              ((zero, Some EOF),
               (advance (initDataBuffer stream) rest 1)\<lparr>isFinished := True, receivedDone := True\<rparr>))"
proof -
  have loop: "processLines_loop s c' =
      (Inl EOF, (advance s rest 1)\<lparr>isFinished := True, receivedDone := True\<rparr>)"
    if "pending (reader s) = ''data: '' @ token @ eol k @ rest" for s :: "'a streamReader" and c'
    by (rule loop_Return) (rule body_terminal [OF assms(1) that])
  have raw: "RecvRaw stream =
      (Inl EOF, (advance (initDataBuffer stream) rest 1)\<lparr>isFinished := True, receivedDone := True\<rparr>)"
    if "\<not> isFinished stream"
    using that assms(2) by (simp add: RecvRaw_def processLines_def loop)
  show ?thesis
    using loop [OF assms(2)] raw Recv_error [OF raw] by simp
qed

theorem terminal_token_ends_stream_witness:
  "(''[DONE]'' = ''[DONE]'' \<or> ''[DONE]'' = ''done'')
   \<and> pending (reader (example_stream 300 (''data: [DONE]'' @ [CR, LF] @ ''data: x''))) =
        ''data: '' @ ''[DONE]'' @ eol 1 @ ''data: x''
   \<and> \<not> isFinished (example_stream 300 (''data: [DONE]'' @ [CR, LF] @ ''data: x''))
   \<and> fst (RecvRaw (example_stream 300 (''data: [DONE]'' @ [CR, LF] @ ''data: x''))) = Inl EOF
   \<and> isFinished (snd (RecvRaw (example_stream 300 (''data: [DONE]'' @ [CR, LF] @ ''data: x''))))
   \<and> receivedDone (snd (RecvRaw (example_stream 300 (''data: [DONE]'' @ [CR, LF] @ ''data: x''))))
   \<and> reader (snd (RecvRaw (example_stream 300 (''data: [DONE]'' @ [CR, LF] @ ''data: x'')))) =
        \<lparr>pending = ''data: x'', terminal = EOF, reads = 1\<rparr>
   \<and> fst (Recv [] (example_stream 300 (''data: [DONE]'' @ [CR, LF] @ ''data: x''))) = ([], Some EOF)"
  using terminal_token_ends_stream [of "''[DONE]''"
      "example_stream 300 (''data: [DONE]'' @ [CR, LF] @ ''data: x'')" 1 "''data: x''" 0 "[]"]
  by (simp add: example_stream_def eol_def advance_def initDataBuffer_def)

subsection \<open>A finished stream\<close>

text \<open>
  C6. Once \<^verbatim>\<open>isFinished\<close> is set, \<^verbatim>\<open>RecvRaw\<close> and \<^verbatim>\<open>Recv\<close> return \<^verbatim>\<open>io.EOF\<close>
  and leave the whole stream as it was: no field changes, and the byte source is not
  read (its count of reads is a part of the unchanged stream). So it is for every
  later pull: any number of pulls gives \<^verbatim>\<open>io.EOF\<close> each time and the same stream.
\<close>

theorem finished_stream_is_not_read:
  assumes "isFinished stream"
  shows "RecvRaw stream = (Inl EOF, stream) \<and> Recv zero stream = ((zero, Some EOF), stream)
       \<and> RecvRaw_times n stream = (replicate n (Inl EOF), stream)"
proof -
  from assms have once: "RecvRaw stream = (Inl EOF, stream)"
    by (simp add: RecvRaw_def)
  then have "RecvRaw_times n stream = (replicate n (Inl EOF), stream)"
    by (induction n) simp_all
  with once show ?thesis
    by (simp add: Recv_def)
qed

theorem finished_stream_is_not_read_witness:
  "isFinished ((example_stream 300 (''data: x'' @ [LF, LF]))\<lparr>isFinished := True\<rparr>)
   \<and> RecvRaw ((example_stream 300 (''data: x'' @ [LF, LF]))\<lparr>isFinished := True\<rparr>) =
       (Inl EOF, (example_stream 300 (''data: x'' @ [LF, LF]))\<lparr>isFinished := True\<rparr>)
   \<and> Recv [] ((example_stream 300 (''data: x'' @ [LF, LF]))\<lparr>isFinished := True\<rparr>) =
       (([], Some EOF), (example_stream 300 (''data: x'' @ [LF, LF]))\<lparr>isFinished := True\<rparr>)
   \<and> RecvRaw_times 3 ((example_stream 300 (''data: x'' @ [LF, LF]))\<lparr>isFinished := True\<rparr>) =
       ([Inl EOF, Inl EOF, Inl EOF], (example_stream 300 (''data: x'' @ [LF, LF]))\<lparr>isFinished := True\<rparr>)"
  using finished_stream_is_not_read
    [of "(example_stream 300 (''data: x'' @ [LF, LF]))\<lparr>isFinished := True\<rparr>" "[]" 3]
  by (simp add: numeral_3_eq_3)

subsection \<open>End of the byte source with data in the buffer\<close>

text \<open>
  C3. When the byte source reports \<^verbatim>\<open>io.EOF\<close> while the data buffer holds bytes, the
  pull returns these bytes as a frame, with no error, and empties the buffer; the pull
  after it returns \<^verbatim>\<open>io.EOF\<close> and sets \<^verbatim>\<open>isFinished\<close>. So a data line that the
  connection closes after, with no blank line, is still delivered: two pulls give the
  payload and then \<^verbatim>\<open>io.EOF\<close>.
\<close>

theorem eof_flushes_data_buffer:
  assumes "\<not> isFinished stream"
      and "terminal (reader stream) = EOF"
  shows "(dataBuffer stream = Some b \<and> b \<noteq> [] \<and> LF \<notin> set (pending (reader stream)) \<longrightarrow>
            RecvRaw stream = (Inr b, (advance stream [] 1)\<lparr>dataBuffer := Some []\<rparr>)
          \<and> RecvRaw ((advance stream [] 1)\<lparr>dataBuffer := Some []\<rparr>) =
              (Inl EOF, (advance stream [] 2)\<lparr>dataBuffer := Some [], isFinished := True\<rparr>))
       \<and> (dataBuffer_Bytes stream = [] \<and> payload_ok p
            \<and> pending (reader stream) = data_line p k @ tail \<and> LF \<notin> set tail \<longrightarrow>
            RecvRaw_times 2 stream =
              ([Inr p, Inl EOF], (advance stream [] 3)\<lparr>dataBuffer := Some [], isFinished := True\<rparr>))"
proof (intro conjI impI; (elim conjE)?)
  assume b: "dataBuffer stream = Some b" "b \<noteq> []" and ended: "LF \<notin> set (pending (reader stream))"
  from b have bytes: "dataBuffer_Bytes stream = b"
    by (simp add: dataBuffer_Bytes_def)
  show "RecvRaw stream = (Inr b, (advance stream [] 1)\<lparr>dataBuffer := Some []\<rparr>)"
    using assms b ended bytes by (simp add: RecvRaw_def processLines_def loop_end_EOF)
  show "RecvRaw ((advance stream [] 1)\<lparr>dataBuffer := Some []\<rparr>) =
      (Inl EOF, (advance stream [] 2)\<lparr>dataBuffer := Some [], isFinished := True\<rparr>)"
    using assms by (simp add: RecvRaw_def processLines_def loop_end_EOF advance_def)
next
  assume empty: "dataBuffer_Bytes stream = []" and p: "payload_ok p"
    and input: "pending (reader stream) = data_line p k @ tail" and tail: "LF \<notin> set tail"
  have first: "RecvRaw stream = (Inr p, (advance stream [] 2)\<lparr>dataBuffer := Some []\<rparr>)"
    using assms empty tail p
    by (simp add: RecvRaw_def processLines_def loop_data_line [OF p, where rest = tail and k = k] input
        loop_end_EOF payload_ok_def)
  have second: "RecvRaw ((advance stream [] 2)\<lparr>dataBuffer := Some []\<rparr>) =
      (Inl EOF, (advance stream [] 3)\<lparr>dataBuffer := Some [], isFinished := True\<rparr>)"
    using assms by (simp add: RecvRaw_def processLines_def loop_end_EOF advance_def)
  show "RecvRaw_times 2 stream =
      ([Inr p, Inl EOF], (advance stream [] 3)\<lparr>dataBuffer := Some [], isFinished := True\<rparr>)"
    using first second by (rule RecvRaw_times_2)
qed

theorem eof_flushes_data_buffer_witness:
  \<open>\<not> isFinished ((example_stream 300 ''dat'')\<lparr>dataBuffer := Some ''{"id":"1"}''\<rparr>)
   \<and> terminal (reader ((example_stream 300 ''dat'')\<lparr>dataBuffer := Some ''{"id":"1"}''\<rparr>)) = EOF
   \<and> dataBuffer ((example_stream 300 ''dat'')\<lparr>dataBuffer := Some ''{"id":"1"}''\<rparr>) = Some ''{"id":"1"}''
   \<and> ''{"id":"1"}'' \<noteq> []
   \<and> LF \<notin> set (pending (reader ((example_stream 300 ''dat'')\<lparr>dataBuffer := Some ''{"id":"1"}''\<rparr>)))
   \<and> fst (RecvRaw ((example_stream 300 ''dat'')\<lparr>dataBuffer := Some ''{"id":"1"}''\<rparr>)) = Inr ''{"id":"1"}''
   \<and> \<not> isFinished (snd (RecvRaw ((example_stream 300 ''dat'')\<lparr>dataBuffer := Some ''{"id":"1"}''\<rparr>)))
   \<and> fst (RecvRaw (snd (RecvRaw ((example_stream 300 ''dat'')\<lparr>dataBuffer := Some ''{"id":"1"}''\<rparr>)))) = Inl EOF
   \<and> \<not> isFinished (example_stream 300 (''data: {"id":"1"}'' @ [CR, LF]))
   \<and> terminal (reader (example_stream 300 (''data: {"id":"1"}'' @ [CR, LF]))) = EOF
   \<and> dataBuffer_Bytes (example_stream 300 (''data: {"id":"1"}'' @ [CR, LF])) = []
   \<and> payload_ok ''{"id":"1"}''
   \<and> pending (reader (example_stream 300 (''data: {"id":"1"}'' @ [CR, LF]))) = data_line ''{"id":"1"}'' 1 @ []
   \<and> fst (RecvRaw_times 2 (example_stream 300 (''data: {"id":"1"}'' @ [CR, LF]))) = [Inr ''{"id":"1"}'', Inl EOF]
   \<and> isFinished (snd (RecvRaw_times 2 (example_stream 300 (''data: {"id":"1"}'' @ [CR, LF]))))\<close>
  using eof_flushes_data_buffer
          [of \<open>(example_stream 300 ''dat'')\<lparr>dataBuffer := Some ''{"id":"1"}''\<rparr>\<close> \<open>''{"id":"1"}''\<close>]
        eof_flushes_data_buffer
          [of \<open>example_stream 300 (''data: {"id":"1"}'' @ [CR, LF])\<close> _ \<open>''{"id":"1"}''\<close> 1 \<open>[]\<close>]
  by (simp add: example_stream_def dataBuffer_Bytes_def payload_ok_def data_line_def eol_def)

subsection \<open>Fields that no pull changes\<close>

lemma body_keeps:
  "processLines_body s c = Continue s' c' \<Longrightarrow>
     unmarshaler s' = unmarshaler s \<and> emptyMessagesLimit s' = emptyMessagesLimit s
     \<and> terminal (reader s') = terminal (reader s)"
  "processLines_body s c = Return r s' \<Longrightarrow>
     unmarshaler s' = unmarshaler s \<and> emptyMessagesLimit s' = emptyMessagesLimit s
     \<and> terminal (reader s') = terminal (reader s)"
  by (auto simp: processLines_body_def processLines_readErr_def processLines_boundary_def
      processLines_field_def ReadBytes_def Let_def split: if_splits option.splits prod.splits)

lemma loop_keeps:
  "unmarshaler (snd (processLines_loop s c)) = unmarshaler s
   \<and> emptyMessagesLimit (snd (processLines_loop s c)) = emptyMessagesLimit s
   \<and> terminal (reader (snd (processLines_loop s c))) = terminal (reader s)"
proof (induction s c rule: processLines_loop.induct)
  case (1 stream emptyMessagesCount)
  show ?case
  proof (cases "processLines_body stream emptyMessagesCount")
    case (Return r s')
    then show ?thesis
      using body_keeps(2) [OF Return] by (simp add: loop_Return)
  next
    case (Continue s' c')
    then show ?thesis
      using body_keeps(1) [OF Continue] "1.IH" [OF Continue] by (simp add: loop_Continue)
  qed
qed

lemma RecvRaw_keeps [simp]:
  "unmarshaler (snd (RecvRaw s)) = unmarshaler s"
  "emptyMessagesLimit (snd (RecvRaw s)) = emptyMessagesLimit s"
  "terminal (reader (snd (RecvRaw s))) = terminal (reader s)"
  using loop_keeps [of "initDataBuffer s" 0] by (simp_all add: RecvRaw_def processLines_def)

subsection \<open>Error lines\<close>

lemma body_error_line:
  assumes "pending (reader s) = ''error: '' @ p @ eol k @ rest"
      and "LF \<notin> set p" and "p = [] \<or> last p \<noteq> CR"
  shows "processLines_body s c =
           Continue ((advance s rest 1)\<lparr>errAccumulator := errAccumulator s @ p\<rparr>) c"
proof -
  have "processLines_body s c = processLines_field (advance s rest 1) c (''error: '' @ p)"
    using assms by (subst body_line [where l = "''error: '' @ p" and k = k and rest = rest]) auto
  also have "\<dots> = Continue ((advance s rest 1)\<lparr>errAccumulator := errAccumulator s @ p\<rparr>) c"
    by (simp only: field_error advance_fields)
  finally show ?thesis .
qed

lemma body_blank_line:
  assumes "pending (reader s) = eol k @ rest"
  shows "processLines_body s c = processLines_boundary (advance s rest 1) c"
  using body_line [of s "[]" k rest c] assms by simp

lemma boundary_error:
  assumes "unmarshalError s = Some errResp"
  shows "processLines_boundary s c = Return (Inl (APIErr (Error errResp))) s"
proof -
  from assms have "errAccumulator s \<noteq> []"
    by (auto simp: unmarshalError_def)
  with assms show ?thesis
    by (simp add: processLines_boundary_def)
qed

lemma boundary_no_error:
  assumes "unmarshalError s = None"
  shows "processLines_boundary s c =
           (if dataBuffer_Bytes s \<noteq> []
            then Return (Inr (dataBuffer_Bytes s)) (s\<lparr>dataBuffer := Some []\<rparr>)
            else if c + 1 > emptyMessagesLimit s
            then Return (Inl ErrTooManyEmptyStreamMessages) s
            else Continue s (c + 1))"
  using assms by (simp add: processLines_boundary_def)


lemma unmarshalError_errAccumulator:
  "unmarshalError (s\<lparr>errAccumulator := a\<rparr>) =
     (if a = [] then None
      else case decodeErrorResponsePtr (unmarshaler s) a of Inl err \<Rightarrow> None | Inr errResp \<Rightarrow> errResp)"
  by (simp add: unmarshalError_def)

text \<open>
  C8. A line with the prefix \<^verbatim>\<open>error: \<close> has its payload appended to the error
  accumulator. At a blank line with an accumulated error payload that the unmarshaler
  decodes, the pull returns the \<^verbatim>\<open>Error\<close> field of the decoded response as its error,
  whatever the data buffer holds, and \<^verbatim>\<open>Recv\<close> passes this error on unchanged in
  place of a message. For the input of the scenario, the line
  \<^verbatim>\<open>error: {"error":{"message":"bad key"}}\<close> and a blank line, \<^verbatim>\<open>Recv\<close> returns the
  structured error that the unmarshaler decodes the payload to.
\<close>

theorem error_line_is_surfaced_at_boundary:
  "(pending (reader stream) = ''error: '' @ p @ eol k @ rest \<and> LF \<notin> set p \<and> (p = [] \<or> last p \<noteq> CR) \<longrightarrow>
      processLines_body stream c =
        Continue ((advance stream rest 1)\<lparr>errAccumulator := errAccumulator stream @ p\<rparr>) c)
   \<and> (pending (reader stream) = eol k @ rest \<and> unmarshalError stream = Some errResp \<longrightarrow>
      processLines_loop stream c = (Inl (APIErr (Error errResp)), advance stream rest 1)
      \<and> (\<not> isFinished stream \<longrightarrow>
            Recv zero stream =
              ((zero, Some (APIErr (Error errResp))), advance (initDataBuffer stream) rest 1)))
   \<and> (\<not> isFinished stream \<and> errAccumulator stream = []
        \<and> pending (reader stream) = ''error: '' @ bad_key_payload @ [LF, LF] @ rest
        \<and> decodeErrorResponsePtr (unmarshaler stream) bad_key_payload = Inr (Some \<lparr>Error = Some e\<rparr>) \<longrightarrow>
      Recv zero stream =
        ((zero, Some (APIErr (Some e))),
         (advance (initDataBuffer stream) rest 2)\<lparr>errAccumulator := bad_key_payload\<rparr>))"
proof (intro conjI impI; (elim conjE)?)
  assume "pending (reader stream) = ''error: '' @ p @ eol k @ rest" "LF \<notin> set p" "p = [] \<or> last p \<noteq> CR"
  then show "processLines_body stream c =
      Continue ((advance stream rest 1)\<lparr>errAccumulator := errAccumulator stream @ p\<rparr>) c"
    by (rule body_error_line)
next
  assume input: "pending (reader stream) = eol k @ rest" and err: "unmarshalError stream = Some errResp"
  show "processLines_loop stream c = (Inl (APIErr (Error errResp)), advance stream rest 1)"
    using err by (intro loop_Return) (simp add: body_blank_line [OF input] boundary_error)
next
  assume input: "pending (reader stream) = eol k @ rest" and err: "unmarshalError stream = Some errResp"
    and live: "\<not> isFinished stream"
  have "processLines_loop (initDataBuffer stream) 0 =
      (Inl (APIErr (Error errResp)), advance (initDataBuffer stream) rest 1)"
    using err input by (intro loop_Return) (simp add: body_blank_line [of _ k rest] boundary_error)
  with live have "RecvRaw stream = (Inl (APIErr (Error errResp)), advance (initDataBuffer stream) rest 1)"
    by (simp add: RecvRaw_def processLines_def)
  from Recv_error [OF this] show "Recv zero stream =
      ((zero, Some (APIErr (Error errResp))), advance (initDataBuffer stream) rest 1)"
    by simp
next
  assume live: "\<not> isFinished stream" and acc: "errAccumulator stream = []"
    and input: "pending (reader stream) = ''error: '' @ bad_key_payload @ [LF, LF] @ rest"
    and decode: "decodeErrorResponsePtr (unmarshaler stream) bad_key_payload = Inr (Some \<lparr>Error = Some e\<rparr>)"
  let ?s1 = "(advance (initDataBuffer stream) (eol 0 @ rest) 1)\<lparr>errAccumulator := bad_key_payload\<rparr>"
  have line: "processLines_body (initDataBuffer stream) 0 = Continue ?s1 0"
    using body_error_line [of "initDataBuffer stream" bad_key_payload 0 "eol 0 @ rest" 0] input acc
    by (simp add: eol_def bad_key_payload_def)
  have pending: "pending (reader ?s1) = eol 0 @ rest"
    by simp
  have "unmarshalError (advance ?s1 rest 1) = Some \<lparr>Error = Some e\<rparr>"
    using decode by (simp add: unmarshalError_errAccumulator) (simp add: bad_key_payload_def)
  then have "processLines_boundary (advance ?s1 rest 1) 0 =
      Return (Inl (APIErr (Error \<lparr>Error = Some e\<rparr>))) (advance ?s1 rest 1)"
    by (rule boundary_error)
  then have "processLines_body ?s1 0 = Return (Inl (APIErr (Some e))) (advance ?s1 rest 1)"
    by (simp only: body_blank_line [OF pending] ErrorResponse.simps)
  then have "processLines_loop ?s1 0 = (Inl (APIErr (Some e)), advance ?s1 rest 1)"
    by (rule loop_Return)
  then have "processLines_loop (initDataBuffer stream) 0 = (Inl (APIErr (Some e)), advance ?s1 rest 1)"
    by (simp only: loop_Continue [OF line])
  with live have "RecvRaw stream =
      (Inl (APIErr (Some e)), (advance (initDataBuffer stream) rest 2)\<lparr>errAccumulator := bad_key_payload\<rparr>)"
    by (simp add: RecvRaw_def processLines_def)
  from Recv_error [OF this] show "Recv zero stream =
      ((zero, Some (APIErr (Some e))),
       (advance (initDataBuffer stream) rest 2)\<lparr>errAccumulator := bad_key_payload\<rparr>)"
    by simp
qed


theorem error_line_is_surfaced_at_boundary_witness:
  \<open>pending (reader (example_stream 300 (''error: {"error":{"message":"bad key"}}'' @ [LF, LF]))) =
       ''error: '' @ bad_key_payload @ eol 0 @ [LF]
   \<and> LF \<notin> set bad_key_payload \<and> (bad_key_payload = [] \<or> last bad_key_payload \<noteq> CR)
   \<and> processLines_body (example_stream 300 (''error: {"error":{"message":"bad key"}}'' @ [LF, LF])) 0 =
       Continue ((advance (example_stream 300 (''error: {"error":{"message":"bad key"}}'' @ [LF, LF])) [LF] 1)
                   \<lparr>errAccumulator := bad_key_payload\<rparr>) 0
   \<and> pending (reader ((example_stream 300 [CR, LF])\<lparr>errAccumulator := bad_key_payload\<rparr>)) = eol 1 @ []
   \<and> unmarshalError ((example_stream 300 [CR, LF])\<lparr>errAccumulator := bad_key_payload\<rparr>) =
       Some \<lparr>Error = Some bad_key\<rparr>
   \<and> \<not> isFinished ((example_stream 300 [CR, LF])\<lparr>errAccumulator := bad_key_payload\<rparr>)
   \<and> fst (Recv [] ((example_stream 300 [CR, LF])\<lparr>errAccumulator := bad_key_payload\<rparr>)) =
       ([], Some (APIErr (Some bad_key)))
   \<and> \<not> isFinished (example_stream 300 (''error: {"error":{"message":"bad key"}}'' @ [LF, LF]))
   \<and> errAccumulator (example_stream 300 (''error: {"error":{"message":"bad key"}}'' @ [LF, LF])) = []
   \<and> pending (reader (example_stream 300 (''error: {"error":{"message":"bad key"}}'' @ [LF, LF]))) =
       ''error: '' @ bad_key_payload @ [LF, LF] @ []
   \<and> decodeErrorResponsePtr
         (unmarshaler (example_stream 300 (''error: {"error":{"message":"bad key"}}'' @ [LF, LF])))
         bad_key_payload = Inr (Some \<lparr>Error = Some bad_key\<rparr>)
   \<and> fst (Recv [] (example_stream 300 (''error: {"error":{"message":"bad key"}}'' @ [LF, LF]))) =
       ([], Some (APIErr (Some bad_key)))
   \<and> Message bad_key = ''bad key''\<close>
  using error_line_is_surfaced_at_boundary
          [of \<open>example_stream 300 (''error: {"error":{"message":"bad key"}}'' @ [LF, LF])\<close>
              bad_key_payload 0 \<open>[LF]\<close> 0 _ _ bad_key]
        error_line_is_surfaced_at_boundary
          [of \<open>(example_stream 300 [CR, LF])\<lparr>errAccumulator := bad_key_payload\<rparr>\<close>
              _ 1 \<open>[]\<close> _ \<open>\<lparr>Error = Some bad_key\<rparr>\<close> \<open>[]\<close>]
        error_line_is_surfaced_at_boundary
          [of \<open>example_stream 300 (''error: {"error":{"message":"bad key"}}'' @ [LF, LF])\<close>
              _ _ \<open>[]\<close> _ _ \<open>[]\<close> bad_key]
  by (simp add: example_stream_def example_unmarshaler_def unmarshalError_def bad_key_payload_def
      bad_key_def eol_def)

subsection \<open>End of the byte source with a pending error payload\<close>

text \<open>
  C4. The specification asks for a truncated-stream error when the connection closes
  right after an error line, with no blank line. The reader does not give one: at
  \<^verbatim>\<open>io.EOF\<close> it looks at the data buffer only. On the bytes of the line
  \<^verbatim>\<open>error: {"error":{"message":"bad key"}}\<close> followed by the close, the pull sets
  \<^verbatim>\<open>isFinished\<close> and returns \<^verbatim>\<open>io.EOF\<close>, while the accumulator holds the payload,
  which would decode to the structured error.
\<close>

theorem close_after_error_line_is_clean_eof:
  \<open>RecvRaw (example_stream 300 (''error: {"error":{"message":"bad key"}}'' @ [LF])) =
     (Inl EOF,
      (example_stream 300 [])
        \<lparr>isFinished := True, reader := \<lparr>pending = [], terminal = EOF, reads = 2\<rparr>,
          errAccumulator := ''{"error":{"message":"bad key"}}'', dataBuffer := Some []\<rparr>)
   \<and> fst (Recv [] (example_stream 300 (''error: {"error":{"message":"bad key"}}'' @ [LF]))) = ([], Some EOF)
   \<and> unmarshalError (snd (RecvRaw (example_stream 300 (''error: {"error":{"message":"bad key"}}'' @ [LF])))) =
       Some \<lparr>Error = Some bad_key\<rparr>\<close>
proof -
  let ?s = \<open>example_stream 300 (''error: {"error":{"message":"bad key"}}'' @ [LF])\<close>
  let ?s1 = "(advance (initDataBuffer ?s) [] 1)\<lparr>errAccumulator := bad_key_payload\<rparr>"
  have "processLines_body (initDataBuffer ?s) 0 = Continue ?s1 0"
    using body_error_line [of "initDataBuffer ?s" bad_key_payload 0 "[]" 0]
    by (simp add: example_stream_def bad_key_payload_def eol_def)
  then have "processLines_loop (initDataBuffer ?s) 0 = processLines_loop ?s1 0"
    by (rule loop_Continue)
  also have "\<dots> = (Inl EOF, (advance ?s1 [] 1)\<lparr>isFinished := True\<rparr>)"
    by (subst loop_end_EOF) (simp_all add: example_stream_def dataBuffer_Bytes_def initDataBuffer_def)
  finally have raw: "RecvRaw ?s = (Inl EOF, (advance ?s1 [] 1)\<lparr>isFinished := True\<rparr>)"
    by (simp add: RecvRaw_def processLines_def example_stream_def)
  have state: \<open>(advance ?s1 [] 1)\<lparr>isFinished := True\<rparr> =
      (example_stream 300 [])
        \<lparr>isFinished := True, reader := \<lparr>pending = [], terminal = EOF, reads = 2\<rparr>,
          errAccumulator := ''{"error":{"message":"bad key"}}'', dataBuffer := Some []\<rparr>\<close>
    by (simp add: example_stream_def advance_def initDataBuffer_def bad_key_payload_def)
  have "unmarshalError ((advance ?s1 [] 1)\<lparr>isFinished := True\<rparr>) = Some \<lparr>Error = Some bad_key\<rparr>"
    by (simp add: unmarshalError_def example_stream_def example_unmarshaler_def bad_key_payload_def)
  with raw Recv_error [OF raw, of "[]"] state show ?thesis
    by simp
qed

subsection \<open>Decode failures in Recv\<close>

text \<open>
  What \<^verbatim>\<open>Recv\<close> does with a frame whose decode into the message fails, once the
  check for an error response has not returned: the error is nil exactly when the frame
  contains the marker \<^verbatim>\<open>"choices"\<close> (with its quotes), otherwise it is the decode
  error. The message returned is the named result as the failed decode left it.
\<close>

lemma Recv_decode_failure:
  assumes "RecvRaw stream = (Inr rawLine, stream')"
      and "Recv_errorResponse stream' rawLine = None"
      and "decodeResponse (unmarshaler stream') rawLine = (response, Some err)"
  shows \<open>Recv zero stream =
           ((response, if Contains rawLine ''"choices"'' then None else Some err), stream')\<close>
  using assms by (simp add: Recv_def)

text \<open>
  C9. The specification has \<^verbatim>\<open>Recv\<close> return an empty message with a nil error when the
  decode fails on a frame with the marker, and the comment at that \<^verbatim>\<open>return\<close> says
  "return empty response". The code returns \<^verbatim>\<open>response\<close> after \<^verbatim>\<open>Unmarshal\<close> has
  written to it. On the frame \<^verbatim>\<open>{"id":"abc","choices":7}\<close>, where the decode fills in
  the id and then fails on \<^verbatim>\<open>choices\<close>, \<^verbatim>\<open>Recv\<close> returns the message with the id
  \<^verbatim>\<open>abc\<close> and a nil error: the message is not the empty one, and the decode error is
  lost.
\<close>

theorem decode_failure_returns_filled_message:
  \<open>fst (RecvRaw ((example_stream 300 (''data: {"id":"abc","choices":7}'' @ [LF, LF]))
                   \<lparr>unmarshaler := type_mismatch_unmarshaler\<rparr>)) =
     Inr ''{"id":"abc","choices":7}''
   \<and> Recv_errorResponse
         (snd (RecvRaw ((example_stream 300 (''data: {"id":"abc","choices":7}'' @ [LF, LF]))
                          \<lparr>unmarshaler := type_mismatch_unmarshaler\<rparr>)))
         ''{"id":"abc","choices":7}'' = None
   \<and> decodeResponse type_mismatch_unmarshaler ''{"id":"abc","choices":7}'' =
       (''abc'', Some (OtherErr ''cannot unmarshal number into field choices''))
   \<and> Contains ''{"id":"abc","choices":7}'' ''"choices"''
   \<and> fst (Recv [] ((example_stream 300 (''data: {"id":"abc","choices":7}'' @ [LF, LF]))
                     \<lparr>unmarshaler := type_mismatch_unmarshaler\<rparr>)) = (''abc'', None)
   \<and> ''abc'' \<noteq> ([] :: bytes)\<close>
proof -
  let ?s = \<open>(example_stream 300 (''data: {"id":"abc","choices":7}'' @ [LF, LF]))
      \<lparr>unmarshaler := type_mismatch_unmarshaler\<rparr>\<close>
  have frame: \<open>fst (RecvRaw ?s) = Inr ''{"id":"abc","choices":7}''\<close>
    by code_simp
  then have raw: \<open>RecvRaw ?s = (Inr ''{"id":"abc","choices":7}'', snd (RecvRaw ?s))\<close>
    by (simp add: prod_eq_iff)
  have marker: \<open>Contains ''{"id":"abc","choices":7}'' ''"choices"''\<close>
    by (simp add: HasPrefix_def)
  have no_error: \<open>Recv_errorResponse (snd (RecvRaw ?s)) ''{"id":"abc","choices":7}'' = None\<close>
    by (simp add: Recv_errorResponse_def HasPrefix_def)
  have decode: \<open>decodeResponse type_mismatch_unmarshaler ''{"id":"abc","choices":7}'' =
      (''abc'', Some (OtherErr ''cannot unmarshal number into field choices''))\<close>
    by (simp add: type_mismatch_unmarshaler_def)
  have \<open>decodeResponse (unmarshaler (snd (RecvRaw ?s))) ''{"id":"abc","choices":7}'' =
      (''abc'', Some (OtherErr ''cannot unmarshal number into field choices''))\<close>
    by (simp add: decode)
  from Recv_decode_failure [OF raw no_error this, of "[]"] marker
  have \<open>fst (Recv [] ?s) = (''abc'', None)\<close>
    by simp
  with frame no_error decode marker show ?thesis
    by simp
qed

subsection \<open>Blank lines and the count of empty messages\<close>

lemma count_inc:
  fixes c l :: "64 word"
  assumes "unat c < unat l"
  shows "unat (c + 1) = Suc (unat c)" and "\<not> c + 1 > l"
proof -
  have "unat l < 2 ^ 64"
    using unsigned_less [of l] by simp
  with assms have "unat c + unat (1 :: 64 word) < 2 ^ LENGTH(64)"
    by simp
  then have "unat (c + 1) = unat c + unat (1 :: 64 word)"
    by (simp only: unat_add_lem [THEN iffD1])
  then show inc: "unat (c + 1) = Suc (unat c)"
    by simp
  from assms show "\<not> c + 1 > l"
    by (simp add: word_less_nat_alt inc)
qed

lemma count_exceeds:
  fixes c l :: "64 word"
  assumes "unat c = unat l" and "l + 1 \<noteq> 0"
  shows "c + 1 > l"
proof -
  from assms(1) have "c = l"
    by (simp add: word_unat_eq_iff)
  with assms(2) show ?thesis
    by (simp add: word_less_nat_alt unatSuc add.commute)
qed


lemma loop_blank_line_counted:
  assumes "unmarshalError s = None" and "dataBuffer_Bytes s = []"
      and "pending (reader s) = eol k @ rest"
      and "unat c < unat (emptyMessagesLimit s)"
  shows "processLines_loop s c = processLines_loop (advance s rest 1) (c + 1)"
proof -
  have "processLines_body s c = processLines_boundary (advance s rest 1) c"
    using assms(3) by (rule body_blank_line)
  also have "\<dots> = Continue (advance s rest 1) (c + 1)"
    using assms(1,2) count_inc(2) [OF assms(4)] by (simp add: boundary_no_error)
  finally show ?thesis
    by (rule loop_Continue)
qed

lemma loop_blank_line_exceeds:
  assumes "unmarshalError s = None" and "dataBuffer_Bytes s = []"
      and "pending (reader s) = eol k @ rest"
      and "unat c = unat (emptyMessagesLimit s)" and "emptyMessagesLimit s + 1 \<noteq> 0"
  shows "processLines_loop s c = (Inl ErrTooManyEmptyStreamMessages, advance s rest 1)"
proof -
  have "processLines_body s c = processLines_boundary (advance s rest 1) c"
    using assms(3) by (rule body_blank_line)
  also have "\<dots> = Return (Inl ErrTooManyEmptyStreamMessages) (advance s rest 1)"
    using assms(1,2) count_exceeds [OF assms(4,5)] by (simp add: boundary_no_error)
  finally show ?thesis
    by (rule loop_Return)
qed

lemma blank_lines_Cons: "blank_lines (k # ks) = eol k @ blank_lines ks"
  by (simp add: blank_lines_def)

lemma loop_blank_lines_counted:
  assumes "unmarshalError s = None" and "dataBuffer_Bytes s = []"
      and "pending (reader s) = blank_lines ks @ rest"
      and "unat c + length ks \<le> unat (emptyMessagesLimit s)"
  shows "processLines_loop s c =
           processLines_loop (advance s rest (length ks)) (c + of_nat (length ks))
         \<and> unat (c + of_nat (length ks)) = unat c + length ks"
  using assms
proof (induction ks arbitrary: s c)
  case Nil
  then have "pending (reader s) = rest"
    by (simp add: blank_lines_def)
  then have "advance s rest 0 = s"
    by (simp add: advance_def)
  then show ?case by simp
next
  case (Cons k ks)
  let ?s1 = "advance s (blank_lines ks @ rest) 1"
  from Cons.prems(4) have below: "unat c < unat (emptyMessagesLimit s)"
    by simp
  have first: "processLines_loop s c = processLines_loop ?s1 (c + 1)"
    using Cons.prems(1,2) _ below
    by (rule loop_blank_line_counted) (simp add: Cons.prems(3) blank_lines_Cons)
  have inc: "unat (c + 1) = Suc (unat c)"
    using below by (rule count_inc)
  have rest: "processLines_loop ?s1 (c + 1) =
      processLines_loop (advance ?s1 rest (length ks)) (c + 1 + of_nat (length ks))
      \<and> unat (c + 1 + of_nat (length ks)) = unat (c + 1) + length ks"
    using Cons.prems by (intro Cons.IH) (simp_all add: inc)
  show ?case
    using first rest by (simp add: inc add.assoc add.commute [of 1])
qed


lemma blank_lines_append: "blank_lines (ks @ ks') = blank_lines ks @ blank_lines ks'"
  by (simp add: blank_lines_def)

lemma loop_blank_lines_exceed:
  assumes "unmarshalError s = None" and "dataBuffer_Bytes s = []"
      and "pending (reader s) = blank_lines ks @ rest"
      and "emptyMessagesLimit s + 1 \<noteq> 0"
      and "unat (emptyMessagesLimit s) < length ks"
  shows "processLines_loop s 0 =
           (Inl ErrTooManyEmptyStreamMessages,
            advance s (blank_lines (drop (Suc (unat (emptyMessagesLimit s))) ks) @ rest)
              (Suc (unat (emptyMessagesLimit s))))"
proof -
  let ?L = "unat (emptyMessagesLimit s)"
  let ?tail = "blank_lines (drop (Suc ?L) ks) @ rest"
  obtain ks1 k where split: "ks = ks1 @ k # drop (Suc ?L) ks" and len: "length ks1 = ?L"
    using id_take_nth_drop [OF assms(5)] assms(5) by (metis length_take min.absorb4)
  let ?s1 = "advance s (eol k @ ?tail) (length ks1)"
  have "blank_lines ks = blank_lines ks1 @ eol k @ blank_lines (drop (Suc ?L) ks)"
    by (subst split) (simp only: blank_lines_append blank_lines_Cons)
  then have input: "pending (reader s) = blank_lines ks1 @ (eol k @ ?tail)"
    by (simp add: assms(3))
  have counted: "processLines_loop s 0 = processLines_loop ?s1 (0 + of_nat (length ks1))
      \<and> unat (0 + of_nat (length ks1) :: 64 word) = unat (0 :: 64 word) + length ks1"
    using assms(1,2) input by (rule loop_blank_lines_counted) (simp add: len)
  then have count: "unat (0 + of_nat (length ks1) :: 64 word) = unat (emptyMessagesLimit ?s1)"
    by (simp add: len)
  have "processLines_loop ?s1 (0 + of_nat (length ks1)) =
      (Inl ErrTooManyEmptyStreamMessages, advance ?s1 ?tail 1)"
    using _ _ _ count by (rule loop_blank_line_exceeds) (simp_all add: assms)
  with counted show ?thesis
    by (simp add: len)
qed





subsection \<open>Data lines\<close>

lemma data_lines_Cons: "data_lines ((p, k) # pks) = data_line p k @ data_lines pks"
  by (simp add: data_lines_def)

lemma loop_data_lines:
  assumes "pks \<noteq> []" and "list_all payload_ok (map fst pks)"
      and "pending (reader s) = data_lines pks @ rest"
  shows "processLines_loop s c =
           processLines_loop
             ((advance s rest (length pks))
                \<lparr>dataBuffer := Some (foldl (\<lambda>b p. b @ (if b \<noteq> [] then [LF] else []) @ p)
                                       (dataBuffer_Bytes s) (map fst pks))\<rparr>) c"
  using assms
proof (induction pks arbitrary: s rule: list_nonempty_induct)
  case (single pk)
  obtain p k where pk: "pk = (p, k)"
    by (cases pk)
  from single have "payload_ok p" "pending (reader s) = data_line p k @ rest"
    by (simp_all add: pk data_lines_def)
  then show ?case
    by (simp add: loop_data_line pk)
next
  case (cons pk pks)
  obtain p k where pk: "pk = (p, k)"
    by (cases pk)
  let ?s1 = "(advance s (data_lines pks @ rest) 1)
      \<lparr>dataBuffer := Some (dataBuffer_Bytes s @ (if dataBuffer_Bytes s \<noteq> [] then [LF] else []) @ p)\<rparr>"
  from cons.prems have "payload_ok p" "pending (reader s) = data_line p k @ data_lines pks @ rest"
    by (simp_all add: pk data_lines_Cons)
  then have "processLines_loop s c = processLines_loop ?s1 c"
    by (rule loop_data_line)
  also have "\<dots> = processLines_loop
      ((advance ?s1 rest (length pks))
         \<lparr>dataBuffer := Some (foldl (\<lambda>b p. b @ (if b \<noteq> [] then [LF] else []) @ p)
                                (dataBuffer_Bytes ?s1) (map fst pks))\<rparr>) c"
    using cons.prems by (intro cons.IH) simp_all
  finally show ?case
    by (simp add: pk)
qed

lemma foldl_payloads:
  assumes "b \<noteq> []"
  shows "foldl (\<lambda>b p. b @ (if b \<noteq> [] then [LF] else []) @ p) b ps = b @ concat (map ((#) LF) ps)"
  using assms by (induction ps arbitrary: b) simp_all

lemma join_LF_Cons: "join_LF (p # ps) = p @ concat (map ((#) LF) ps)"
  by (induction ps arbitrary: p) simp_all

lemma foldl_payloads_join:
  assumes "ps \<noteq> []" and "list_all payload_ok ps"
  shows "foldl (\<lambda>b p. b @ (if b \<noteq> [] then [LF] else []) @ p) [] ps = join_LF ps"
proof (cases ps)
  case Nil
  with assms show ?thesis by simp
next
  case (Cons p ps')
  with assms have "p \<noteq> []"
    by (simp add: payload_ok_def)
  then show ?thesis
    by (simp add: Cons foldl_payloads join_LF_Cons)
qed

text \<open>
  C7. Consecutive data lines with payloads, followed by a blank line, give one frame at
  that blank line: the payloads in order with exactly one LF between consecutive ones.
  The data buffer is empty afterwards. The stream starts with an empty data buffer and
  no decodable error payload pending; the payloads are as \<open>payload_ok\<close> says.
\<close>

theorem data_lines_make_one_frame:
  assumes "\<not> isFinished stream" and "unmarshalError stream = None" and "dataBuffer_Bytes stream = []"
      and "pks \<noteq> []" and "list_all payload_ok (map fst pks)"
      and "pending (reader stream) = data_lines pks @ eol k @ rest"
  shows "RecvRaw stream =
           (Inr (join_LF (map fst pks)),
            (advance (initDataBuffer stream) rest (Suc (length pks)))\<lparr>dataBuffer := Some []\<rparr>)
       \<and> dataBuffer (snd (RecvRaw stream)) = Some []"
proof -
  let ?frame = "foldl (\<lambda>b p. b @ (if b \<noteq> [] then [LF] else []) @ p) [] (map fst pks)"
  let ?s1 = "(advance (initDataBuffer stream) (eol k @ rest) (length pks))\<lparr>dataBuffer := Some ?frame\<rparr>"
  have frame: "?frame = join_LF (map fst pks)"
    using assms(4,5) by (intro foldl_payloads_join) simp_all
  have "join_LF (map fst pks) \<noteq> []"
    using assms(4,5) by (cases pks) (auto simp: join_LF_Cons payload_ok_def)
  with frame have nonempty: "?frame \<noteq> []"
    by simp
  have "processLines_loop (initDataBuffer stream) 0 = processLines_loop ?s1 0"
    using loop_data_lines [OF assms(4,5), of "initDataBuffer stream" "eol k @ rest" 0] assms(3,6)
    by simp
  also have "processLines_body ?s1 0 = processLines_boundary (advance ?s1 rest 1) 0"
    by (rule body_blank_line) simp
  then have "processLines_loop ?s1 0 = (Inr ?frame, (advance ?s1 rest 1)\<lparr>dataBuffer := Some []\<rparr>)"
    using nonempty assms(2) by (intro loop_Return) (simp add: boundary_no_error)
  finally show ?thesis
    using assms(1) by (simp add: RecvRaw_def processLines_def frame)
qed


theorem data_lines_make_one_frame_witness:
  \<open>\<not> isFinished (example_stream 300 (''data: {"a":'' @ [LF] @ ''data: 1}'' @ [CR, LF] @ [LF] @ ''data: next''))
   \<and> unmarshalError (example_stream 300 (''data: {"a":'' @ [LF] @ ''data: 1}'' @ [CR, LF] @ [LF] @ ''data: next'')) = None
   \<and> dataBuffer_Bytes (example_stream 300 (''data: {"a":'' @ [LF] @ ''data: 1}'' @ [CR, LF] @ [LF] @ ''data: next'')) = []
   \<and> [(''{"a":'', 0 :: nat), (''1}'', 1)] \<noteq> []
   \<and> list_all payload_ok (map fst [(''{"a":'', 0 :: nat), (''1}'', 1)])
   \<and> pending (reader (example_stream 300 (''data: {"a":'' @ [LF] @ ''data: 1}'' @ [CR, LF] @ [LF] @ ''data: next''))) =
        data_lines [(''{"a":'', 0), (''1}'', 1)] @ eol 0 @ ''data: next''
   \<and> fst (RecvRaw (example_stream 300 (''data: {"a":'' @ [LF] @ ''data: 1}'' @ [CR, LF] @ [LF] @ ''data: next''))) =
        Inr (''{"a":'' @ [LF] @ ''1}'')
   \<and> dataBuffer (snd (RecvRaw (example_stream 300 (''data: {"a":'' @ [LF] @ ''data: 1}'' @ [CR, LF] @ [LF] @ ''data: next'')))) =
        Some []
   \<and> reader (snd (RecvRaw (example_stream 300 (''data: {"a":'' @ [LF] @ ''data: 1}'' @ [CR, LF] @ [LF] @ ''data: next'')))) =
        \<lparr>pending = ''data: next'', terminal = EOF, reads = 3\<rparr>\<close>
  using data_lines_make_one_frame
    [of \<open>example_stream 300 (''data: {"a":'' @ [LF] @ ''data: 1}'' @ [CR, LF] @ [LF] @ ''data: next'')\<close>
        \<open>[(''{"a":'', 0), (''1}'', 1)]\<close> 0 \<open>''data: next''\<close>]
  by (simp add: example_stream_def unmarshalError_def dataBuffer_Bytes_def payload_ok_def
      data_lines_def data_line_def eol_def)

subsection \<open>The count of empty messages is local to a pull\<close>

lemma RecvRaw_blank_lines_event:
  assumes "\<not> isFinished s" and "unmarshalError s = None" and "dataBuffer_Bytes s = []"
      and "length ks \<le> unat (emptyMessagesLimit s)" and "payload_ok p"
      and "pending (reader s) = blank_lines ks @ data_line p k @ eol k' @ rest"
  shows "RecvRaw s = (Inr p, (advance (initDataBuffer s) rest (length ks + 2))\<lparr>dataBuffer := Some []\<rparr>)"
proof -
  let ?s1 = "advance (initDataBuffer s) (data_line p k @ eol k' @ rest) (length ks)"
  let ?s2 = "(advance ?s1 (eol k' @ rest) 1)\<lparr>dataBuffer := Some p\<rparr>"
  from assms(5) have p: "p \<noteq> []"
    by (simp add: payload_ok_def)
  have "processLines_loop (initDataBuffer s) 0 = processLines_loop ?s1 (0 + of_nat (length ks))
      \<and> unat (0 + of_nat (length ks) :: 64 word) = unat (0 :: 64 word) + length ks"
    by (rule loop_blank_lines_counted) (simp_all add: assms)
  then have "processLines_loop (initDataBuffer s) 0 = processLines_loop ?s1 (of_nat (length ks))"
    by simp
  also have "\<dots> = processLines_loop ?s2 (of_nat (length ks))"
    using loop_data_line [OF assms(5), of ?s1 k "eol k' @ rest"] assms(3) by simp
  also have "processLines_body ?s2 (of_nat (length ks)) =
      processLines_boundary (advance ?s2 rest 1) (of_nat (length ks))"
    by (rule body_blank_line) simp
  then have "processLines_loop ?s2 (of_nat (length ks)) =
      (Inr p, (advance ?s2 rest 1)\<lparr>dataBuffer := Some []\<rparr>)"
    using p assms(2) by (intro loop_Return) (simp add: boundary_no_error)
  finally show ?thesis
    using assms(1) by (simp add: RecvRaw_def processLines_def)
qed

text \<open>
  C10. \<^verbatim>\<open>emptyMessagesCount\<close> is a local variable of \<^verbatim>\<open>processLines\<close>: the stream
  has no field for it, and every call starts the loop with zero. So the limit bounds
  the blank lines of one pull only: after a pull that has ended with
  \<^verbatim>\<open>ErrTooManyEmptyStreamMessages\<close>, the next pull again reads as many blank lines as
  the limit allows and returns the frame that follows them.
\<close>

theorem empty_count_is_per_pull:
  assumes "\<not> isFinished stream" and "unmarshalError stream = None" and "dataBuffer_Bytes stream = []"
      and "emptyMessagesLimit stream + 1 \<noteq> 0"
      and "length ks = Suc (unat (emptyMessagesLimit stream))"
      and "length ks' \<le> unat (emptyMessagesLimit stream)"
      and "payload_ok p"
      and "pending (reader stream) = blank_lines ks @ blank_lines ks' @ data_line p k @ eol k' @ rest"
  shows "RecvRaw_times 2 stream =
           ([Inl ErrTooManyEmptyStreamMessages, Inr p],
            (advance (initDataBuffer stream) rest (length ks + length ks' + 2))\<lparr>dataBuffer := Some []\<rparr>)"
proof -
  let ?s1 = "advance (initDataBuffer stream) (blank_lines ks' @ data_line p k @ eol k' @ rest) (length ks)"
  have "processLines_loop (initDataBuffer stream) 0 =
      (Inl ErrTooManyEmptyStreamMessages,
       advance (initDataBuffer stream)
         (blank_lines (drop (Suc (unat (emptyMessagesLimit (initDataBuffer stream)))) ks)
          @ blank_lines ks' @ data_line p k @ eol k' @ rest)
         (Suc (unat (emptyMessagesLimit (initDataBuffer stream)))))"
    by (rule loop_blank_lines_exceed) (simp_all add: assms)
  then have first: "RecvRaw stream = (Inl ErrTooManyEmptyStreamMessages, ?s1)"
    using assms(1,5) by (simp add: RecvRaw_def processLines_def blank_lines_def)
  have init: "initDataBuffer ?s1 = ?s1"
    by (rule initDataBuffer_Some [of _ "dataBuffer_Bytes stream"]) (simp add: dataBuffer_initDataBuffer)
  have "RecvRaw ?s1 = (Inr p, (advance (initDataBuffer ?s1) rest (length ks' + 2))\<lparr>dataBuffer := Some []\<rparr>)"
    by (rule RecvRaw_blank_lines_event) (simp_all add: assms)
  then have second: "RecvRaw ?s1 =
      (Inr p, (advance (initDataBuffer stream) rest (length ks + length ks' + 2))\<lparr>dataBuffer := Some []\<rparr>)"
    by (simp add: init add.assoc)
  from first second show ?thesis
    by (rule RecvRaw_times_2)
qed


theorem empty_count_is_per_pull_witness:
  "\<not> isFinished (example_stream 1 ([LF, LF] @ [CR, LF] @ ''data: {}'' @ [LF, LF]))
   \<and> unmarshalError (example_stream 1 ([LF, LF] @ [CR, LF] @ ''data: {}'' @ [LF, LF])) = None
   \<and> dataBuffer_Bytes (example_stream 1 ([LF, LF] @ [CR, LF] @ ''data: {}'' @ [LF, LF])) = []
   \<and> emptyMessagesLimit (example_stream 1 ([LF, LF] @ [CR, LF] @ ''data: {}'' @ [LF, LF])) + 1 \<noteq> 0
   \<and> length [0, 0 :: nat] = Suc (unat (emptyMessagesLimit (example_stream 1 ([LF, LF] @ [CR, LF] @ ''data: {}'' @ [LF, LF]))))
   \<and> length [1 :: nat] \<le> unat (emptyMessagesLimit (example_stream 1 ([LF, LF] @ [CR, LF] @ ''data: {}'' @ [LF, LF])))
   \<and> payload_ok ''{}''
   \<and> pending (reader (example_stream 1 ([LF, LF] @ [CR, LF] @ ''data: {}'' @ [LF, LF]))) =
        blank_lines [0, 0] @ blank_lines [1] @ data_line ''{}'' 0 @ eol 0 @ []
   \<and> fst (RecvRaw_times 2 (example_stream 1 ([LF, LF] @ [CR, LF] @ ''data: {}'' @ [LF, LF]))) =
        [Inl ErrTooManyEmptyStreamMessages, Inr ''{}'']
   \<and> reads (reader (snd (RecvRaw_times 2 (example_stream 1 ([LF, LF] @ [CR, LF] @ ''data: {}'' @ [LF, LF]))))) = 5"
  using empty_count_is_per_pull
    [of "example_stream 1 ([LF, LF] @ [CR, LF] @ ''data: {}'' @ [LF, LF])" "[0, 0]" "[1]" "''{}''" 0 0 "[]"]
  by (simp add: example_stream_def unmarshalError_def dataBuffer_Bytes_def payload_ok_def
      blank_lines_def data_line_def eol_def)

subsection \<open>IsComplete\<close>

lemma complete_lines_from_line:
  "LF \<notin> set l \<Longrightarrow> complete_lines_from cur (l @ LF # rest) = (rev cur @ l) # complete_lines_from [] rest"
  by (induction l arbitrary: cur) auto

lemma complete_lines_from_none:
  "LF \<notin> set bs \<Longrightarrow> complete_lines_from cur bs = []"
  by (induction bs arbitrary: cur) auto

lemma complete_lines_line:
  "LF \<notin> set l \<Longrightarrow> complete_lines (l @ LF # rest) = l # complete_lines rest"
  by (simp add: complete_lines_def complete_lines_from_line)

lemma has_terminal_line_line:
  "LF \<notin> set l \<Longrightarrow> has_terminal_line (l @ LF # rest) \<longleftrightarrow> terminal_line l \<or> has_terminal_line rest"
  by (simp add: has_terminal_line_def complete_lines_line)

lemma has_terminal_line_none:
  "LF \<notin> set bs \<Longrightarrow> \<not> has_terminal_line bs"
  by (simp add: has_terminal_line_def complete_lines_def complete_lines_from_none)

lemma TrimRight_LF: "TrimRight (l @ [LF]) [CR, LF] = TrimRight l [CR, LF]"
  by (simp add: TrimRight_def)

lemma field_receivedDone:
  assumes "processLines_field s c line = Continue s' c' \<or> processLines_field s c line = Return r s'"
      and "\<not> (HasPrefix line ''data: '' \<and>
              (TrimPrefix line ''data: '' = ''[DONE]'' \<or> TrimPrefix line ''data: '' = ''done''))"
  shows "receivedDone s' = receivedDone s \<and> reader s' = reader s"
  using assms by (auto simp: processLines_field_def Let_def split: if_splits)

lemma boundary_receivedDone:
  assumes "processLines_boundary s c = Continue s' c' \<or> processLines_boundary s c = Return r s'"
  shows "receivedDone s' = receivedDone s \<and> reader s' = reader s"
  using assms by (auto simp: processLines_boundary_def split: if_splits option.splits)

lemma readErr_receivedDone:
  assumes "processLines_readErr s e = Continue s' c' \<or> processLines_readErr s e = Return r s'"
  shows "receivedDone s' = receivedDone s \<and> reader s' = reader s"
  using assms by (auto simp: processLines_readErr_def split: if_splits)

lemma body_unobserved:
  assumes "processLines_body s c = Continue s' c' \<or> processLines_body s c = Return r s'"
      and "\<not> has_terminal_line (pending (reader s))"
  shows "receivedDone s' = receivedDone s \<and> \<not> has_terminal_line (pending (reader s'))"
proof (cases "LF \<in> set (pending (reader s))")
  case True
  then obtain l rest where input: "pending (reader s) = l @ LF # rest" and l: "LF \<notin> set l"
    by (auto dest: split_list_first)
  let ?line = "TrimRight (l @ [LF]) [CR, LF]"
  let ?s1 = "s\<lparr>reader := (reader s)\<lparr>pending := rest, reads := Suc (reads (reader s))\<rparr>\<rparr>"
  from assms(2) input l have no: "\<not> terminal_line l" "\<not> has_terminal_line rest"
    by (simp_all add: has_terminal_line_line)
  have body: "processLines_body s c =
      (if ?line = [] then processLines_boundary ?s1 c else processLines_field ?s1 c ?line)"
    using ReadBytes_line [OF input l] by (simp add: processLines_body_def)
  show ?thesis
  proof (cases "?line = []")
    case True
    with body assms(1) boundary_receivedDone [of ?s1 c s' c' r] no(2) show ?thesis
      by simp
  next
    case False
    from no(1) have "\<not> (HasPrefix ?line ''data: '' \<and>
        (TrimPrefix ?line ''data: '' = ''[DONE]'' \<or> TrimPrefix ?line ''data: '' = ''done''))"
      unfolding terminal_line_def TrimRight_LF .
    with False body assms(1) field_receivedDone [of ?s1 c ?line s' c' r] no(2) show ?thesis
      by simp
  qed
next
  case False
  then have "processLines_body s c =
      processLines_readErr (s\<lparr>reader := (reader s)\<lparr>pending := [], reads := Suc (reads (reader s))\<rparr>\<rparr>)
        (terminal (reader s))"
    using ReadBytes_end [OF False] by (simp add: processLines_body_def)
  with assms(1) readErr_receivedDone
    [of "s\<lparr>reader := (reader s)\<lparr>pending := [], reads := Suc (reads (reader s))\<rparr>\<rparr>"
        "terminal (reader s)" s' c' r]
  show ?thesis
    by (simp add: has_terminal_line_none)
qed

lemma loop_unobserved:
  assumes "\<not> has_terminal_line (pending (reader s))"
  shows "receivedDone (snd (processLines_loop s c)) = receivedDone s
       \<and> \<not> has_terminal_line (pending (reader (snd (processLines_loop s c))))"
  using assms
proof (induction s c rule: processLines_loop.induct)
  case (1 stream emptyMessagesCount)
  show ?case
  proof (cases "processLines_body stream emptyMessagesCount")
    case (Return r s')
    with body_unobserved [of stream emptyMessagesCount s' _ r] "1.prems" show ?thesis
      by (simp add: loop_Return)
  next
    case (Continue s' c')
    with body_unobserved [of stream emptyMessagesCount s' c'] "1.prems"
    have "receivedDone s' = receivedDone stream" "\<not> has_terminal_line (pending (reader s'))"
      by simp_all
    with "1.IH" [OF Continue] show ?thesis
      by (simp add: loop_Continue [OF Continue])
  qed
qed

lemma RecvRaw_unobserved:
  assumes "\<not> has_terminal_line (pending (reader s))"
  shows "receivedDone (snd (RecvRaw s)) = receivedDone s
       \<and> \<not> has_terminal_line (pending (reader (snd (RecvRaw s))))"
  using assms loop_unobserved [of "initDataBuffer s" 0] by (simp add: RecvRaw_def processLines_def)

lemma RecvRaw_times_unobserved:
  assumes "\<not> has_terminal_line (pending (reader s))"
  shows "receivedDone (snd (RecvRaw_times n s)) = receivedDone s"
  using assms
proof (induction n arbitrary: s)
  case 0
  then show ?case by simp
next
  case (Suc n)
  from RecvRaw_unobserved [OF Suc.prems] Suc.IH [of "snd (RecvRaw s)"] show ?case
    by (simp add: split_beta)
qed


lemma wire_Nil: "wire [] = ''data: '' @ ''[DONE]'' @ eol 0"
  by (simp add: wire_def eol_def)

lemma wire_Cons: "wire (p # ps) = data_line p 0 @ eol 0 @ wire ps"
  by (simp add: wire_def event_def data_line_def eol_def)

lemma RecvRaw_terminal:
  assumes "\<not> isFinished s" and "pending (reader s) = ''data: '' @ ''[DONE]'' @ eol k @ rest"
  shows "RecvRaw s = (Inl EOF, (advance (initDataBuffer s) rest 1)\<lparr>isFinished := True, receivedDone := True\<rparr>)"
proof -
  have "processLines_body (initDataBuffer s) 0 =
      Return (Inl EOF) ((advance (initDataBuffer s) rest 1)\<lparr>isFinished := True, receivedDone := True\<rparr>)"
    by (rule body_terminal [where token = "''[DONE]''" and k = k]) (simp_all add: assms(2))
  then show ?thesis
    using assms(1) by (simp add: RecvRaw_def processLines_def loop_Return)
qed

lemma wire_pulls:
  assumes "\<not> isFinished s" and "unmarshalError s = None" and "dataBuffer_Bytes s = []"
      and "list_all payload_ok ps" and "pending (reader s) = wire ps @ rest"
  shows "fst (RecvRaw_times (Suc (length ps)) s) = map Inr ps @ [Inl EOF]
       \<and> IsComplete (snd (RecvRaw_times (Suc (length ps)) s))"
  using assms
proof (induction ps arbitrary: s)
  case Nil
  then have "RecvRaw s =
      (Inl EOF, (advance (initDataBuffer s) rest 1)\<lparr>isFinished := True, receivedDone := True\<rparr>)"
    by (intro RecvRaw_terminal [where k = 0]) (simp_all add: wire_Nil)
  then show ?case
    by (simp add: IsComplete_def)
next
  case (Cons p ps)
  let ?s1 = "(advance (initDataBuffer s) (wire ps @ rest) (length ([] :: nat list) + 2))\<lparr>dataBuffer := Some []\<rparr>"
  have first: "RecvRaw s = (Inr p, ?s1)"
    using Cons.prems by (intro RecvRaw_blank_lines_event [where k = 0 and k' = 0])
      (simp_all add: wire_Cons blank_lines_def)
  have "fst (RecvRaw_times (Suc (length ps)) ?s1) = map Inr ps @ [Inl EOF]
      \<and> IsComplete (snd (RecvRaw_times (Suc (length ps)) ?s1))"
    using Cons.prems by (intro Cons.IH) simp_all
  then show ?case
    using first by (simp add: split_beta)
qed

text \<open>
  C2. \<^verbatim>\<open>IsComplete\<close> is true only if a terminal token has been read: on a stream
  that has not seen one, whose pending bytes hold no complete line with a terminal
  token, \<^verbatim>\<open>IsComplete\<close> is false after any number of pulls, so also when the pulls
  have ended with \<^verbatim>\<open>io.EOF\<close> from the exhausted byte source. And on a well-formed
  stream (messages as data lines, each followed by a blank line, then the line
  \<^verbatim>\<open>data: [DONE]\<close>) the pulls return the messages in order and then \<^verbatim>\<open>io.EOF\<close>, and
  \<^verbatim>\<open>IsComplete\<close> is true after that pull.
\<close>

theorem IsComplete_iff_terminal_token_read:
  "(\<not> receivedDone stream \<and> \<not> has_terminal_line (pending (reader stream)) \<longrightarrow>
      \<not> IsComplete (snd (RecvRaw_times n stream)))
   \<and> (\<not> isFinished stream \<and> unmarshalError stream = None \<and> dataBuffer_Bytes stream = []
        \<and> list_all payload_ok ps \<and> pending (reader stream) = wire ps @ rest \<longrightarrow>
      fst (RecvRaw_times (Suc (length ps)) stream) = map Inr ps @ [Inl EOF]
      \<and> IsComplete (snd (RecvRaw_times (Suc (length ps)) stream)))"
proof (intro conjI impI; (elim conjE)?)
  assume "\<not> receivedDone stream" "\<not> has_terminal_line (pending (reader stream))"
  then show "\<not> IsComplete (snd (RecvRaw_times n stream))"
    by (simp add: IsComplete_def RecvRaw_times_unobserved)
next
  assume "\<not> isFinished stream" "unmarshalError stream = None" "dataBuffer_Bytes stream = []"
    "list_all payload_ok ps" "pending (reader stream) = wire ps @ rest"
  then show "fst (RecvRaw_times (Suc (length ps)) stream) = map Inr ps @ [Inl EOF]"
    and "IsComplete (snd (RecvRaw_times (Suc (length ps)) stream))"
    using wire_pulls [of stream ps rest] by simp_all
qed

theorem IsComplete_iff_terminal_token_read_witness:
  \<open>\<not> receivedDone (example_stream 300 (''data: {}'' @ [LF, LF] @ ''data: [DONE]''))
   \<and> \<not> has_terminal_line (pending (reader (example_stream 300 (''data: {}'' @ [LF, LF] @ ''data: [DONE]''))))
   \<and> fst (RecvRaw_times 3 (example_stream 300 (''data: {}'' @ [LF, LF] @ ''data: [DONE]''))) =
        [Inr ''{}'', Inl EOF, Inl EOF]
   \<and> isFinished (snd (RecvRaw_times 3 (example_stream 300 (''data: {}'' @ [LF, LF] @ ''data: [DONE]''))))
   \<and> pending (reader (snd (RecvRaw_times 3 (example_stream 300 (''data: {}'' @ [LF, LF] @ ''data: [DONE]''))))) = []
   \<and> \<not> IsComplete (snd (RecvRaw_times 3 (example_stream 300 (''data: {}'' @ [LF, LF] @ ''data: [DONE]''))))
   \<and> \<not> isFinished (example_stream 300 (''data: {"id":"1"}'' @ [LF, LF] @ ''data: [DONE]'' @ [LF, LF]))
   \<and> unmarshalError (example_stream 300 (''data: {"id":"1"}'' @ [LF, LF] @ ''data: [DONE]'' @ [LF, LF])) = None
   \<and> dataBuffer_Bytes (example_stream 300 (''data: {"id":"1"}'' @ [LF, LF] @ ''data: [DONE]'' @ [LF, LF])) = []
   \<and> list_all payload_ok [''{"id":"1"}'']
   \<and> pending (reader (example_stream 300 (''data: {"id":"1"}'' @ [LF, LF] @ ''data: [DONE]'' @ [LF, LF]))) =
        wire [''{"id":"1"}''] @ [LF]
   \<and> fst (RecvRaw_times 2 (example_stream 300 (''data: {"id":"1"}'' @ [LF, LF] @ ''data: [DONE]'' @ [LF, LF]))) =
        [Inr ''{"id":"1"}'', Inl EOF]
   \<and> IsComplete (snd (RecvRaw_times 2 (example_stream 300 (''data: {"id":"1"}'' @ [LF, LF] @ ''data: [DONE]'' @ [LF, LF]))))\<close>
proof -
  let ?s = \<open>example_stream 300 (''data: {}'' @ [LF, LF] @ ''data: [DONE]'')\<close>
  let ?t = \<open>example_stream 300 (''data: {"id":"1"}'' @ [LF, LF] @ ''data: [DONE]'' @ [LF, LF])\<close>
  have run: \<open>fst (RecvRaw_times 3 ?s) = [Inr ''{}'', Inl EOF, Inl EOF]\<close>
    \<open>isFinished (snd (RecvRaw_times 3 ?s))\<close>
    \<open>pending (reader (snd (RecvRaw_times 3 ?s))) = []\<close>
    by code_simp+
  have s: "\<not> receivedDone ?s \<and> \<not> has_terminal_line (pending (reader ?s))"
    by (simp add: example_stream_def has_terminal_line_def complete_lines_def terminal_line_def
        TrimRight_def HasPrefix_def TrimPrefix_def)
  have t: \<open>\<not> isFinished ?t \<and> unmarshalError ?t = None \<and> dataBuffer_Bytes ?t = []
      \<and> list_all payload_ok [''{"id":"1"}''] \<and> pending (reader ?t) = wire [''{"id":"1"}''] @ [LF]\<close>
    by (simp add: example_stream_def unmarshalError_def dataBuffer_Bytes_def payload_ok_def
        wire_def event_def)
  have two: \<open>Suc (length [''{"id":"1"}'']) = 2\<close>
    by simp
  have \<open>fst (RecvRaw_times 2 ?t) = [Inr ''{"id":"1"}'', Inl EOF] \<and> IsComplete (snd (RecvRaw_times 2 ?t))\<close>
    using IsComplete_iff_terminal_token_read [of ?t 0 \<open>[''{"id":"1"}'']\<close> \<open>[LF]\<close>, THEN conjunct2, THEN mp, OF t]
    by (simp only: two list.map append.simps)
  moreover have "\<not> IsComplete (snd (RecvRaw_times 3 ?s))"
    using IsComplete_iff_terminal_token_read [of ?s 3, THEN conjunct1, THEN mp, OF s] .
  ultimately show ?thesis
    using run s t by simp
qed

end
